theory Spec2Isabelle
  imports Main "HOL-Library.Sublist"
begin

section \<open>Text\<close>

text \<open>
  A Python \<open>str\<close> is a sequence of Unicode code points; a code point is a natural
  number. \<open>ascii\<close> reads an ASCII literal as such a sequence.
\<close>

type_synonym ustring = "nat list"

definition ascii :: "string \<Rightarrow> ustring" where
  "ascii s = map of_char s"

text \<open>
  The class \<open>\s\<close> of \<open>re\<close> on \<open>str\<close> patterns: the code points for which
  \<open>str.isspace\<close> holds.
\<close>

definition is_space :: "nat \<Rightarrow> bool" where
  "is_space c \<longleftrightarrow>
     (9 \<le> c \<and> c \<le> 13) \<or> (28 \<le> c \<and> c \<le> 32) \<or> c = 133 \<or> c = 160 \<or> c = 5760 \<or>
     (8192 \<le> c \<and> c \<le> 8202) \<or> c = 8232 \<or> c = 8233 \<or> c = 8239 \<or> c = 8287 \<or> c = 12288"

text \<open>
  The class \<open>\d\<close>: the Unicode decimal digits (category Nd). They come in runs of ten,
  each starting at a digit zero; the table is that of Unicode 14.0 (CPython 3.11).
  \<open>digit_value\<close> is what \<open>int\<close> reads from one such character.
\<close>

definition nd_zeros :: "nat list" where
  "nd_zeros =
     [48, 1632, 1776, 1984, 2406, 2534, 2662, 2790, 2918, 3046, 3174, 3302, 3430, 3558,
      3664, 3792, 3872, 4160, 4240, 6112, 6160, 6470, 6608, 6784, 6800, 6992, 7088, 7232,
      7248, 42528, 43216, 43264, 43472, 43504, 43600, 44016, 65296, 66720, 68912, 69734,
      69872, 69942, 70096, 70384, 70736, 70864, 71248, 71360, 71472, 71904, 72016, 72784,
      73040, 73120, 92768, 92864, 93008, 120782, 120792, 120802, 120812, 120822, 123200,
      123632, 125264, 130032]"

definition digit_value :: "nat \<Rightarrow> nat option" where
  "digit_value c =
     (case filter (\<lambda>z. z \<le> c \<and> c \<le> z + 9) nd_zeros of
        [] \<Rightarrow> None
      | z # _ \<Rightarrow> Some (c - z))"

definition is_decimal :: "nat \<Rightarrow> bool" where
  "is_decimal c \<longleftrightarrow> digit_value c \<noteq> None"

section \<open>sanitize_filename\<close>

text \<open>The character set \<open>[<>:"/\\|?*]\<close> of the first substitution.\<close>

definition invalid_char :: "nat \<Rightarrow> bool" where
  "invalid_char c \<longleftrightarrow> c \<in> set [60, 62, 58, 34, 47, 92, 124, 63, 42]"

text \<open>
  \<open>re.sub(r'\s+', '_', s)\<close>: every maximal run of whitespace becomes one underscore.
\<close>

function sub_spaces :: "ustring \<Rightarrow> ustring" where
  "sub_spaces [] = []"
| "sub_spaces (c # cs) =
     (if is_space c then 95 # sub_spaces (dropWhile is_space cs) else c # sub_spaces cs)"
  by pat_completeness auto
termination
  by (relation "measure length") (auto simp: length_dropWhile_le less_Suc_eq_le)

text \<open>\<open>s.strip(chars)\<close>: the characters of \<open>chars\<close> are removed from both ends.\<close>

definition strip :: "nat list \<Rightarrow> ustring \<Rightarrow> ustring" where
  "strip chars s =
     rev (dropWhile (\<lambda>c. c \<in> set chars) (rev (dropWhile (\<lambda>c. c \<in> set chars) s)))"

definition sanitize_filename :: "ustring \<Rightarrow> ustring" where
  "sanitize_filename text =
     (let sanitized = filter (\<lambda>c. \<not> invalid_char c) text;
          sanitized = sub_spaces sanitized;
          sanitized = strip [32, 46] sanitized
      in sanitized)"

section \<open>parse_date_to_yyyymmdd\<close>

subsection \<open>The pattern of the format \<open>%d-%m-%Y\<close>\<close>

text \<open>
  \<open>datetime.strptime\<close> turns the format into a regular expression, one named group
  for each directive (module \<open>_strptime\<close>, class \<open>TimeRE\<close>):
  \<^item> \<open>%d\<close> is \<open>(?P<d>3[0-1]|[1-2]\d|0[1-9]|[1-9]| [1-9])\<close>,
  \<^item> \<open>%m\<close> is \<open>(?P<m>1[0-2]|0[1-9]|[1-9])\<close>,
  \<^item> \<open>%Y\<close> is \<open>(?P<Y>\d\d\d\d)\<close>,
  and the hyphens stand for themselves. The expressions needed here are made of single
  characters, ranges, the class \<open>\d\<close>, alternatives and sequences.
\<close>

datatype rx = Chr nat | Rng nat nat | Dig | Alt rx rx | Cat rx rx

text \<open>
  Matching at the start of a text, as the backtracking matcher of \<open>re\<close> does: the
  result lists every way to match, as the matched text and the rest, in the order in
  which the matcher tries them (the left alternative first).
\<close>

fun rx_match :: "rx \<Rightarrow> ustring \<Rightarrow> (ustring \<times> ustring) list" where
  "rx_match (Chr c) s = (case s of [] \<Rightarrow> [] | x # xs \<Rightarrow> if x = c then [([x], xs)] else [])"
| "rx_match (Rng lo hi) s =
     (case s of [] \<Rightarrow> [] | x # xs \<Rightarrow> if lo \<le> x \<and> x \<le> hi then [([x], xs)] else [])"
| "rx_match Dig s = (case s of [] \<Rightarrow> [] | x # xs \<Rightarrow> if is_decimal x then [([x], xs)] else [])"
| "rx_match (Alt r1 r2) s = rx_match r1 s @ rx_match r2 s"
| "rx_match (Cat r1 r2) s =
     concat (map (\<lambda>(a, t). map (\<lambda>(b, u). (a @ b, u)) (rx_match r2 t)) (rx_match r1 s))"

definition rx_d :: rx where
  "rx_d = Alt (Cat (Chr 51) (Rng 48 49)) (Alt (Cat (Rng 49 50) Dig)
            (Alt (Cat (Chr 48) (Rng 49 57)) (Alt (Rng 49 57) (Cat (Chr 32) (Rng 49 57)))))"

definition rx_m :: rx where
  "rx_m = Alt (Cat (Chr 49) (Rng 48 50)) (Alt (Cat (Chr 48) (Rng 49 57)) (Rng 49 57))"

definition rx_Y :: rx where
  "rx_Y = Cat Dig (Cat Dig (Cat Dig Dig))"

text \<open>
  One more item of a sequence: every match so far is continued, in order, by every match
  of the item on the rest; the text the item matched is kept as a group.
\<close>

definition seq_match :: "rx \<Rightarrow> ('a \<times> ustring) list \<Rightarrow> (('a \<times> ustring) \<times> ustring) list" where
  "seq_match r ms = concat (map (\<lambda>(g, t). map (\<lambda>(u, v). ((g, u), v)) (rx_match r t)) ms)"

text \<open>
  \<open>format_regex.match(data_string)\<close> for the format \<open>%d-%m-%Y\<close>: the candidates in
  the matcher's order, each with its groups (day, hyphen, month, hyphen, year) and the
  unmatched rest. The match \<open>found\<close> is the first candidate.
\<close>

definition format_regex_match ::
  "ustring \<Rightarrow> ((((((unit \<times> ustring) \<times> ustring) \<times> ustring) \<times> ustring) \<times> ustring) \<times> ustring) list" where
  "format_regex_match s =
     seq_match rx_Y (seq_match (Chr 45) (seq_match rx_m (seq_match (Chr 45)
       (seq_match rx_d [((), s)]))))"

subsection \<open>Reading the groups\<close>

text \<open>
  \<open>int(text)\<close> on a group: surrounding whitespace is dropped and the decimal digits
  (of any script) are read. \<open>None\<close> is \<open>ValueError\<close>. The groups of the pattern
  hold only digits and at most one leading space, so signs and underscores, which
  \<open>int\<close> also accepts, do not occur.
\<close>

fun int_digits :: "nat \<Rightarrow> ustring \<Rightarrow> nat option" where
  "int_digits acc [] = Some acc"
| "int_digits acc (c # cs) =
     (case digit_value c of None \<Rightarrow> None | Some v \<Rightarrow> int_digits (10 * acc + v) cs)"

definition py_int :: "ustring \<Rightarrow> nat option" where
  "py_int s =
     (let t = rev (dropWhile is_space (rev (dropWhile is_space s)))
      in if t = [] then None else int_digits 0 t)"

text \<open>
  \<open>datetime_date(year, month, day)\<close> raises \<open>ValueError\<close> unless the year is in
  \<open>1..9999\<close>, the month in \<open>1..12\<close> and the day in the month.
\<close>

definition is_leap :: "nat \<Rightarrow> bool" where
  "is_leap y \<longleftrightarrow> y mod 4 = 0 \<and> (y mod 100 \<noteq> 0 \<or> y mod 400 = 0)"

definition days_in_month :: "nat \<Rightarrow> nat \<Rightarrow> nat" where
  "days_in_month y m =
     (if m = 2 then (if is_leap y then 29 else 28)
      else if m \<in> {4, 6, 9, 11} then 30 else 31)"

definition valid_date :: "nat \<Rightarrow> nat \<Rightarrow> nat \<Rightarrow> bool" where
  "valid_date y m d \<longleftrightarrow>
     1 \<le> y \<and> y \<le> 9999 \<and> 1 \<le> m \<and> m \<le> 12 \<and> 1 \<le> d \<and> d \<le> days_in_month y m"

text \<open>
  \<open>datetime.strptime(date_str, "%d-%m-%Y")\<close>; \<open>None\<close> is \<open>ValueError\<close>: no match,
  unconverted data after the match (\<open>len(data_string) != found.end()\<close>), or a date
  that does not exist. The result is (year, month, day).
\<close>

definition strptime_dmY :: "ustring \<Rightarrow> (nat \<times> nat \<times> nat) option" where
  "strptime_dmY s =
     (case format_regex_match s of
        [] \<Rightarrow> None
      | ((((((u, d), h1), m), h2), y), rest) # _ \<Rightarrow>
          if rest \<noteq> [] then None
          else (case (py_int d, py_int m, py_int y) of
                  (Some day, Some month, Some year) \<Rightarrow>
                    if valid_date year month day then Some (year, month, day) else None
                | _ \<Rightarrow> None))"

subsection \<open>Writing the date\<close>

text \<open>
  \<open>date_obj.strftime("%Y%m%d")\<close>. \<open>%m\<close> and \<open>%d\<close> are two digits, zero-padded.
  CPython 3.11 passes \<open>%Y\<close> to the C library: glibc writes the year without padding
  (\<open>999\<close>), other libraries pad it to four digits (\<open>0999\<close>). The flag \<open>pad\<close>
  says which library the program runs on.
\<close>

function show_nat :: "nat \<Rightarrow> ustring" where
  "show_nat n = (if n < 10 then [48 + n] else show_nat (n div 10) @ [48 + n mod 10])"
  by pat_completeness auto
termination
  by (relation "measure id") auto

declare show_nat.simps [simp del]

definition zfill :: "nat \<Rightarrow> ustring \<Rightarrow> ustring" where
  "zfill w s = replicate (w - length s) 48 @ s"

definition strftime_Ymd :: "bool \<Rightarrow> nat \<times> nat \<times> nat \<Rightarrow> ustring" where
  "strftime_Ymd pad dt =
     (case dt of (y, m, d) \<Rightarrow>
        (if pad then zfill 4 (show_nat y) else show_nat y)
        @ zfill 2 (show_nat m) @ zfill 2 (show_nat d))"

subsection \<open>The function\<close>

text \<open>
  The \<open>try\<close> branch, and on \<open>ValueError\<close> the fallback
  \<open>re.sub(r'\D', '', date_str)\<close>, which keeps the decimal digits.
\<close>

definition parse_date_to_yyyymmdd :: "bool \<Rightarrow> ustring \<Rightarrow> ustring" where
  "parse_date_to_yyyymmdd pad date_str =
     (case strptime_dmY date_str of
        Some date_obj \<Rightarrow> strftime_Ymd pad date_obj
      | None \<Rightarrow> filter (\<lambda>c. is_decimal c) date_str)"

subsection \<open>The inputs read as a date, stated without the matcher\<close>

text \<open>
  The texts a regular expression denotes. It is used in the proofs only, to relate the
  matcher to the description below.
\<close>

fun lang :: "rx \<Rightarrow> ustring set" where
  "lang (Chr c) = {[c]}"
| "lang (Rng lo hi) = {[x] | x. lo \<le> x \<and> x \<le> hi}"
| "lang Dig = {[x] | x. is_decimal x}"
| "lang (Alt r1 r2) = lang r1 \<union> lang r2"
| "lang (Cat r1 r2) = {u @ v | u v. u \<in> lang r1 \<and> v \<in> lang r2}"

text \<open>
  The three parts of a text that is read as a date, character by character, in the words
  of the amended claim C4. There an \<^emph>\<open>ASCII digit\<close> is one of the ten characters
  \<open>0\<close> to \<open>9\<close> (code points 48 to 57) and a \<^emph>\<open>decimal digit\<close> is a character of
  the Unicode category Nd, of any script (\<open>is_decimal\<close>).

  \<^item> The day is an ASCII digit \<open>1\<close> to \<open>9\<close>, alone or after one space or after one
    \<open>0\<close>; or \<open>1\<close> or \<open>2\<close> followed by one decimal digit; or \<open>30\<close> or \<open>31\<close>.
  \<^item> The month is an ASCII digit \<open>1\<close> to \<open>9\<close>, alone or after one \<open>0\<close>; or
    \<open>10\<close>, \<open>11\<close> or \<open>12\<close>.
  \<^item> The year is four decimal digits.

  \<open>number_of\<close> is the number a part denotes: its decimal digits read by their values,
  most significant first; a space counts for nothing.
\<close>

definition ascii_1_to_9 :: "nat \<Rightarrow> bool" where
  "ascii_1_to_9 c \<longleftrightarrow> 49 \<le> c \<and> c \<le> 57"

definition day_text :: "ustring \<Rightarrow> bool" where
  "day_text t \<longleftrightarrow>
     (\<exists>b. ascii_1_to_9 b \<and> (t = [b] \<or> t = [32, b] \<or> t = [48, b])) \<or>
     (\<exists>b. is_decimal b \<and> (t = [49, b] \<or> t = [50, b])) \<or>
     t = [51, 48] \<or> t = [51, 49]"

definition month_text :: "ustring \<Rightarrow> bool" where
  "month_text t \<longleftrightarrow>
     (\<exists>b. ascii_1_to_9 b \<and> (t = [b] \<or> t = [48, b])) \<or>
     t = [49, 48] \<or> t = [49, 49] \<or> t = [49, 50]"

definition year_text :: "ustring \<Rightarrow> bool" where
  "year_text t \<longleftrightarrow> length t = 4 \<and> list_all is_decimal t"

definition number_of :: "ustring \<Rightarrow> nat" where
  "number_of t =
     foldl (\<lambda>n c. case digit_value c of None \<Rightarrow> n | Some v \<Rightarrow> 10 * n + v) 0 t"

text \<open>
  A text is read as the date (year, month, day) when it is a day, a hyphen, a month, a
  hyphen and a year, with nothing before or after, and the three numbers are a date of
  the calendar.
\<close>

definition reads_as :: "ustring \<Rightarrow> nat \<times> nat \<times> nat \<Rightarrow> bool" where
  "reads_as s dt \<longleftrightarrow>
     (\<exists>d m y. s = d @ 45 # m @ 45 # y \<and> day_text d \<and> month_text m \<and> year_text y \<and>
        dt = (number_of y, number_of m, number_of d) \<and>
        valid_date (number_of y) (number_of m) (number_of d))"

text \<open>A number below 100 in two digits and a number below 10000 in four.\<close>

definition two_digits :: "nat \<Rightarrow> ustring" where
  "two_digits n = [48 + n div 10, 48 + n mod 10]"

definition four_digits :: "nat \<Rightarrow> ustring" where
  "four_digits n = [48 + n div 1000, 48 + n div 100 mod 10, 48 + n div 10 mod 10, 48 + n mod 10]"

section \<open>Paths\<close>

text \<open>
  A \<open>pathlib.Path\<close> is the list of its components below the root of the file system;
  a relative path is taken from the working directory, which the model takes as the
  root. \<open>Path(s)\<close> splits the text at \<open>/\<close> and drops empty components and \<open>.\<close>.
\<close>

type_synonym path = "ustring list"

fun split_on :: "nat \<Rightarrow> ustring \<Rightarrow> ustring list" where
  "split_on sep [] = [[]]"
| "split_on sep (c # cs) =
     (if c = sep then [] # split_on sep cs
      else (case split_on sep cs of [] \<Rightarrow> [[c]] | p # ps \<Rightarrow> (c # p) # ps))"

definition parts_of :: "ustring \<Rightarrow> path" where
  "parts_of s = filter (\<lambda>p. p \<noteq> [] \<and> p \<noteq> [46]) (split_on 47 s)"

definition joinpath :: "path \<Rightarrow> ustring \<Rightarrow> path" where
  "joinpath p s = (if s \<noteq> [] \<and> hd s = 47 then parts_of s else p @ parts_of s)"

definition parent :: "path \<Rightarrow> path" where
  "parent p = butlast p"

definition name :: "path \<Rightarrow> ustring" where
  "name p = (if p = [] then [] else last p)"

text \<open>\<open>s.rfind(c)\<close>: the last index of \<open>c\<close>; \<open>None\<close> is \<open>-1\<close>.\<close>

fun rfind :: "nat \<Rightarrow> ustring \<Rightarrow> nat option" where
  "rfind c [] = None"
| "rfind c (x # xs) =
     (case rfind c xs of Some i \<Rightarrow> Some (Suc i) | None \<Rightarrow> if x = c then Some 0 else None)"

definition suffix :: "path \<Rightarrow> ustring" where
  "suffix p =
     (let name = name p in
      case rfind 46 name of
        None \<Rightarrow> []
      | Some i \<Rightarrow> if 0 < i \<and> i + 1 < length name then drop i name else [])"

section \<open>generate_new_filename\<close>

text \<open>The pydantic model \<open>Invoice\<close>, and the f-string that builds the name.\<close>

record invoice =
  company_name :: ustring
  description :: ustring
  issue_date :: ustring

definition generate_new_filename :: "bool \<Rightarrow> invoice \<Rightarrow> path \<Rightarrow> ustring" where
  "generate_new_filename pad invoice original_path =
     (let company_name = sanitize_filename (company_name invoice);
          description = sanitize_filename (description invoice);
          issue_date = parse_date_to_yyyymmdd pad (issue_date invoice);
          file_extension = suffix original_path
      in company_name @ [95] @ description @ [95] @ issue_date @ file_extension)"

section \<open>The world of the program\<close>

text \<open>
  The exceptions the program meets. \<open>KeyboardInterrupt\<close>, the interrupt of the user, is
  a \<open>BaseException\<close>; the others are subclasses of \<open>Exception\<close>, \<open>OtherException\<close>
  standing for every class the program does not name (\<open>OSError\<close>, \<open>ValueError\<close>, the
  errors of the service). An exception is raised by a call to the system or to the
  service; the interrupt of the user is observed there.
\<close>

datatype exn = KeyboardInterrupt | PermissionError | JSONDecodeError | OtherException

definition is_Exception :: "exn \<Rightarrow> bool" where
  "is_Exception e \<longleftrightarrow> e \<noteq> KeyboardInterrupt"

datatype node = File "nat list" | Dir

text \<open>
  What the service call of \<open>extract_invoice_data\<close> gives back when it returns: a text
  that \<open>json.loads\<close> rejects, one that the model \<open>Invoice\<close> rejects, or an invoice.
\<close>

datatype response = Not_json | Not_invoice | Json invoice

text \<open>The calls of the logger, one constructor for each call in the source.\<close>

datatype event =
    Error_folder_missing path
  | Error_not_a_directory path
  | Info_found nat path
  | Error_permission_denied path
  | Warning_date ustring
  | Debug_response path
  | Error_json path
  | Error_extract path
  | Warning_target_exists ustring
  | Info_renamed path ustring
  | Error_rename path
  | Info_processing path
  | Warning_no_pdf
  | Info_interrupted
  | Error_unexpected path
  | Error_no_files_processed
  | Info_completed nat nat
  | Success_all
  | Warning_some_failed nat
  | Info_script_interrupted
  | Error_unexpected_main

text \<open>
  The state is the file system: the entries in the order in which a directory lists
  them, a file with its content. The rest of the record is the environment, which the
  program cannot change: the system calls that fail (with an error other than "not
  found", or interrupted by the user), for each file what comes of reading it and asking
  the service (\<open>filepath.read_bytes()\<close> and \<open>generate_content\<close>), whether the client
  can be built, and whether the C library pads the year.
\<close>

record world =
  fs :: "(path \<times> node) list"
  stat_error :: "path \<Rightarrow> exn option"
  listdir_error :: "path \<Rightarrow> exn option"
  rename_error :: "path \<Rightarrow> path \<Rightarrow> exn option"
  gemini :: "path \<Rightarrow> exn + response"
  client_error :: "exn option"
  pad_year :: bool

subsection \<open>System calls\<close>

definition stat :: "world \<Rightarrow> path \<Rightarrow> exn + node option" where
  "stat w p = (case stat_error w p of Some e \<Rightarrow> Inl e | None \<Rightarrow> Inr (map_of (fs w) p))"

text \<open>
  \<open>Path.exists\<close>, \<open>is_dir\<close> and \<open>is_file\<close> return \<open>False\<close> when the path is not found
  and pass every other error on.
\<close>

definition path_exists :: "world \<Rightarrow> path \<Rightarrow> exn + bool" where
  "path_exists w p = (case stat w p of Inl e \<Rightarrow> Inl e | Inr n \<Rightarrow> Inr (n \<noteq> None))"

definition is_dir :: "world \<Rightarrow> path \<Rightarrow> exn + bool" where
  "is_dir w p = (case stat w p of Inl e \<Rightarrow> Inl e | Inr n \<Rightarrow> Inr (n = Some Dir))"

definition is_file :: "world \<Rightarrow> path \<Rightarrow> exn + bool" where
  "is_file w p =
     (case stat w p of Inl e \<Rightarrow> Inl e
      | Inr n \<Rightarrow> Inr (case n of Some (File b) \<Rightarrow> True | _ \<Rightarrow> False))"

text \<open>\<open>Path.iterdir\<close>: the entries directly inside the directory, each once.\<close>

definition iterdir :: "world \<Rightarrow> path \<Rightarrow> exn + path list" where
  "iterdir w d =
     (case listdir_error w d of
        Some e \<Rightarrow> Inl e
      | None \<Rightarrow>
          (case map_of (fs w) d of
             Some Dir \<Rightarrow> Inr (remdups (filter (\<lambda>p. p \<noteq> [] \<and> butlast p = d) (map fst (fs w))))
           | _ \<Rightarrow> Inl OtherException))"

text \<open>
  \<open>os.rename\<close> of a file: the entry moves to the new path, replacing an entry there, as
  POSIX does. The program renames regular files only.
\<close>

definition os_rename :: "world \<Rightarrow> path \<Rightarrow> path \<Rightarrow> exn + world" where
  "os_rename w src dst =
     (case rename_error w src dst of
        Some e \<Rightarrow> Inl e
      | None \<Rightarrow>
          (case map_of (fs w) src of
             None \<Rightarrow> Inl OtherException
           | Some n \<Rightarrow>
               if src = dst then Inr w
               else Inr (w\<lparr>fs := map (\<lambda>(p, x). (if p = src then dst else p, x))
                                   (filter (\<lambda>(p, x). p \<noteq> dst) (fs w))\<rparr>)))"

section \<open>InvoiceProcessor\<close>

definition validate_folder :: "world \<Rightarrow> path \<Rightarrow> event list \<times> (exn + bool)" where
  "validate_folder w data_folder =
     (case path_exists w data_folder of
        Inl e \<Rightarrow> ([], Inl e)
      | Inr False \<Rightarrow> ([Error_folder_missing data_folder], Inr False)
      | Inr True \<Rightarrow>
          (case is_dir w data_folder of
             Inl e \<Rightarrow> ([], Inl e)
           | Inr False \<Rightarrow> ([Error_not_a_directory data_folder], Inr False)
           | Inr True \<Rightarrow> ([], Inr True)))"

text \<open>
  \<open>file.suffix.lower() == '.pdf'\<close>. Among all code points only the ASCII letters have a
  lower case that is \<open>p\<close>, \<open>d\<close> or \<open>f\<close>, and \<open>lower\<close> never shortens a text, so lowering
  the ASCII letters decides the comparison.
\<close>

definition lower_ascii :: "nat \<Rightarrow> nat" where
  "lower_ascii c = (if 65 \<le> c \<and> c \<le> 90 then c + 32 else c)"

definition suffix_is_pdf :: "path \<Rightarrow> bool" where
  "suffix_is_pdf file \<longleftrightarrow> map lower_ascii (suffix file) = [46, 112, 100, 102]"

text \<open>The list comprehension of \<open>get_pdf_files\<close>: the first error ends it.\<close>

fun keep_pdfs :: "world \<Rightarrow> path list \<Rightarrow> exn + path list" where
  "keep_pdfs w [] = Inr []"
| "keep_pdfs w (file # files) =
     (case is_file w file of
        Inl e \<Rightarrow> Inl e
      | Inr b \<Rightarrow>
          (case keep_pdfs w files of
             Inl e \<Rightarrow> Inl e
           | Inr rest \<Rightarrow> Inr (if b \<and> suffix_is_pdf file then file # rest else rest)))"

definition list_pdfs :: "world \<Rightarrow> path \<Rightarrow> exn + path list" where
  "list_pdfs w data_folder =
     (case iterdir w data_folder of Inl e \<Rightarrow> Inl e | Inr files \<Rightarrow> keep_pdfs w files)"

definition get_pdf_files :: "world \<Rightarrow> path \<Rightarrow> event list \<times> (exn + path list)" where
  "get_pdf_files w data_folder =
     (case list_pdfs w data_folder of
        Inr pdf_files \<Rightarrow> ([Info_found (length pdf_files) data_folder], Inr pdf_files)
      | Inl e \<Rightarrow>
          if e = PermissionError then ([Error_permission_denied data_folder], Inr [])
          else ([], Inl e))"

text \<open>
  \<open>extract_invoice_data\<close>: the \<open>try\<close> body ends in an invoice or in an exception;
  \<open>except json.JSONDecodeError\<close> and \<open>except Exception\<close> turn the exception into
  \<open>None\<close>, and \<open>KeyboardInterrupt\<close> passes through.
\<close>

definition extract_invoice_data :: "world \<Rightarrow> path \<Rightarrow> event list \<times> (exn + invoice option)" where
  "extract_invoice_data w filepath =
     (case (case gemini w filepath of
              Inl e \<Rightarrow> ([], Inl e)
            | Inr Not_json \<Rightarrow> ([Debug_response filepath], Inl JSONDecodeError)
            | Inr Not_invoice \<Rightarrow> ([Debug_response filepath], Inl OtherException)
            | Inr (Json invoice) \<Rightarrow> ([Debug_response filepath], Inr invoice)) of
        (evs, Inr invoice) \<Rightarrow> (evs, Inr (Some invoice))
      | (evs, Inl e) \<Rightarrow>
          if e = JSONDecodeError then (evs @ [Error_json filepath], Inr None)
          else if is_Exception e then (evs @ [Error_extract filepath], Inr None)
          else (evs, Inl e))"

definition rename_file :: "world \<Rightarrow> path \<Rightarrow> ustring \<Rightarrow> world \<times> event list \<times> (exn + bool)" where
  "rename_file w original_path new_filename =
     (let new_path = joinpath (parent original_path) new_filename in
      case path_exists w new_path of
        Inl e \<Rightarrow> (w, [], Inl e)
      | Inr True \<Rightarrow> (w, [Warning_target_exists new_filename], Inr False)
      | Inr False \<Rightarrow>
          (case os_rename w original_path new_path of
             Inr w' \<Rightarrow> (w', [Info_renamed original_path new_filename], Inr True)
           | Inl e \<Rightarrow>
               if is_Exception e then (w, [Error_rename original_path], Inr False)
               else (w, [], Inl e)))"

text \<open>The warning that \<open>parse_date_to_yyyymmdd\<close> logs when it falls back.\<close>

definition date_warning :: "ustring \<Rightarrow> event list" where
  "date_warning date_str = (if strptime_dmY date_str = None then [Warning_date date_str] else [])"

definition process_file :: "world \<Rightarrow> path \<Rightarrow> world \<times> event list \<times> (exn + bool)" where
  "process_file w filepath =
     (case extract_invoice_data w filepath of
        (evs, Inl e) \<Rightarrow> (w, Info_processing filepath # evs, Inl e)
      | (evs, Inr None) \<Rightarrow> (w, Info_processing filepath # evs, Inr False)
      | (evs, Inr (Some invoice)) \<Rightarrow>
          (let new_filename = generate_new_filename (pad_year w) invoice filepath in
           case rename_file w filepath new_filename of
             (w', evs', r) \<Rightarrow>
               (w', Info_processing filepath # evs @ date_warning (issue_date invoice) @ evs', r)))"

text \<open>
  The \<open>for\<close> loop of \<open>process_all_files\<close>: \<open>except KeyboardInterrupt\<close> leaves the loop,
  \<open>except Exception\<close> goes on with the next file.
\<close>

fun process_loop :: "world \<Rightarrow> nat \<Rightarrow> path list \<Rightarrow> world \<times> event list \<times> nat" where
  "process_loop w successful_count [] = (w, [], successful_count)"
| "process_loop w successful_count (pdf_file # pdf_files) =
     (case process_file w pdf_file of
        (w', evs, Inr ok) \<Rightarrow>
          (case process_loop w' (if ok then successful_count + 1 else successful_count) pdf_files of
             (w'', evs', n) \<Rightarrow> (w'', evs @ evs', n))
      | (w', evs, Inl e) \<Rightarrow>
          if e = KeyboardInterrupt then (w', evs @ [Info_interrupted], successful_count)
          else (case process_loop w' successful_count pdf_files of
                  (w'', evs', n) \<Rightarrow> (w'', evs @ Error_unexpected pdf_file # evs', n)))"

definition process_all_files :: "world \<Rightarrow> path \<Rightarrow> world \<times> event list \<times> (exn + nat \<times> nat)" where
  "process_all_files w data_folder =
     (case validate_folder w data_folder of
        (evs, Inl e) \<Rightarrow> (w, evs, Inl e)
      | (evs, Inr False) \<Rightarrow> (w, evs, Inr (0, 0))
      | (evs, Inr True) \<Rightarrow>
          (case get_pdf_files w data_folder of
             (evs1, Inl e) \<Rightarrow> (w, evs @ evs1, Inl e)
           | (evs1, Inr pdf_files) \<Rightarrow>
               if pdf_files = [] then (w, evs @ evs1 @ [Warning_no_pdf], Inr (0, 0))
               else (case process_loop w 0 pdf_files of
                       (w', evs2, successful_count) \<Rightarrow>
                         (w', evs @ evs1 @ evs2, Inr (successful_count, length pdf_files)))))"

section \<open>main\<close>

text \<open>
  What \<open>parse_arguments\<close> does with the command line. \<open>parser.parse_args()\<close> prints
  the help and leaves the program with status 0 when the command line asks for it
  (\<open>-h\<close>, \<open>--help\<close>); it prints the usage and leaves the program with status 2 when it
  rejects the command line (no folder, a second positional argument, an unknown option);
  otherwise it returns the namespace with the folder and the flag \<open>verbose\<close>. Both exits
  are a \<open>SystemExit\<close> raised before the \<open>try\<close> statement of \<open>main\<close>.
\<close>

datatype arguments = Help | Usage_error | Namespace ustring bool

text \<open>
  The status with which the program ends, \<open>sys.exit(main())\<close>. Building the processor
  builds the service client, which can fail. The flag \<open>verbose\<close> sets the level of the
  log only; the events below are the calls of the logger, whatever the level.
\<close>

definition main :: "world \<Rightarrow> arguments \<Rightarrow> world \<times> event list \<times> nat" where
  "main w args =
     (case args of
        Help \<Rightarrow> (w, [], 0)
      | Usage_error \<Rightarrow> (w, [], 2)
      | Namespace folder verbose \<Rightarrow>
          (case (case client_error w of
                   Some e \<Rightarrow> (w, [], Inl e)
                 | None \<Rightarrow> process_all_files w (parts_of folder)) of
             (w', evs, Inr (successful, n_total)) \<Rightarrow>
               if n_total = 0 then (w', evs @ [Error_no_files_processed], 1)
               else if successful = n_total
               then (w', evs @ [Info_completed successful n_total, Success_all], 0)
               else (w', evs @ [Info_completed successful n_total,
                                Warning_some_failed (n_total - successful)], 1)
           | (w', evs, Inl e) \<Rightarrow>
               if e = KeyboardInterrupt then (w', evs @ [Info_script_interrupted], 1)
               else (w', evs @ [Error_unexpected_main], 1)))"

section \<open>Reading the log\<close>

text \<open>The files whose processing began, and the files that were renamed, in order.\<close>

fun processing_of :: "event \<Rightarrow> path list" where
  "processing_of (Info_processing p) = [p]"
| "processing_of _ = []"

fun renaming_of :: "event \<Rightarrow> path list" where
  "renaming_of (Info_renamed p n) = [p]"
| "renaming_of _ = []"

definition processed :: "event list \<Rightarrow> path list" where
  "processed evs = concat (map processing_of evs)"

definition renamed :: "event list \<Rightarrow> path list" where
  "renamed evs = concat (map renaming_of evs)"

text \<open>A world in which no system call and no service call is interrupted by the user.\<close>

definition no_interrupt :: "world \<Rightarrow> bool" where
  "no_interrupt w \<longleftrightarrow>
     (\<forall>p. gemini w p \<noteq> Inl KeyboardInterrupt) \<and>
     (\<forall>p. stat_error w p \<noteq> Some KeyboardInterrupt) \<and>
     (\<forall>p q. rename_error w p q \<noteq> Some KeyboardInterrupt)"

text \<open>The environment of a world: everything but the file system.\<close>

definition env_of :: "world \<Rightarrow> world" where
  "env_of w = w\<lparr>fs := []\<rparr>"

section \<open>Example runs\<close>

text \<open>
  A folder \<open>inv\<close> with three PDF files and a text file. The service answers with the
  same invoice for \<open>a.pdf\<close> and \<open>c.pdf\<close> and with a text that is not JSON for
  \<open>b.pdf\<close>.
\<close>

definition folder0 :: path where
  "folder0 = [ascii ''inv'']"

definition file_a :: path where
  "file_a = [ascii ''inv'', ascii ''a.pdf'']"

definition file_b :: path where
  "file_b = [ascii ''inv'', ascii ''b.pdf'']"

definition file_c :: path where
  "file_c = [ascii ''inv'', ascii ''c.pdf'']"

definition invoice0 :: invoice where
  "invoice0 = \<lparr>company_name = ascii ''Acme Corp'', description = ascii ''subscription'',
               issue_date = ascii ''05-03-2024''\<rparr>"

definition name0 :: ustring where
  "name0 = ascii ''Acme_Corp_subscription_20240305.pdf''"

definition world0 :: world where
  "world0 =
     \<lparr>fs = [(folder0, Dir), (file_a, File [1]), (file_b, File [2]), (file_c, File [3]),
            ([ascii ''inv'', ascii ''n.txt''], File [4])],
      stat_error = (\<lambda>p. None), listdir_error = (\<lambda>p. None), rename_error = (\<lambda>p q. None),
      gemini = (\<lambda>p. if p = file_b then Inr Not_json else Inr (Json invoice0)),
      client_error = None, pad_year = False\<rparr>"

text \<open>The same folder with \<open>a.pdf\<close> alone, and without a PDF file.\<close>

definition world_one :: world where
  "world_one = world0\<lparr>fs := [(folder0, Dir), (file_a, File [1])]\<rparr>"

definition world_empty :: world where
  "world_empty = world0\<lparr>fs := [(folder0, Dir), ([ascii ''inv'', ascii ''n.txt''], File [4])]\<rparr>"

text \<open>The world in which the folder cannot be listed.\<close>

definition world_denied :: world where
  "world_denied = world0\<lparr>listdir_error := (\<lambda>p. Some PermissionError)\<rparr>"

text \<open>The world in which the user interrupts the service call for \<open>b.pdf\<close>.\<close>

definition world_interrupt :: world where
  "world_interrupt =
     world0\<lparr>gemini := (\<lambda>p. if p = file_b then Inl KeyboardInterrupt else Inr (Json invoice0))\<rparr>"

text \<open>The file system after \<open>a.pdf\<close> was renamed.\<close>

definition fs_renamed :: "(path \<times> node) list" where
  "fs_renamed =
     [(folder0, Dir), ([ascii ''inv'', name0], File [1]), (file_b, File [2]), (file_c, File [3]),
      ([ascii ''inv'', ascii ''n.txt''], File [4])]"

section \<open>Properties of sanitize_filename\<close>

lemma set_sub_spaces: "set (sub_spaces s) \<subseteq> {c \<in> set s. \<not> is_space c} \<union> {95}"
proof (induction s rule: sub_spaces.induct)
  case 1
  show ?case by simp
next
  case (2 c cs)
  have "set (dropWhile is_space cs) \<subseteq> set cs"
    by (rule set_dropWhileD [THEN subsetI])
  with 2 show ?case by auto
qed

lemma no_space_95: "\<not> is_space 95"
  by (simp add: is_space_def)

lemma no_invalid_95: "\<not> invalid_char 95"
  by (simp add: invalid_char_def)

lemma sub_spaces_no_space: "c \<in> set (sub_spaces s) \<Longrightarrow> \<not> is_space c"
  using set_sub_spaces [of s] no_space_95 by auto

lemma sub_spaces_no_invalid:
  "\<forall>c\<in>set s. \<not> invalid_char c \<Longrightarrow> c \<in> set (sub_spaces s) \<Longrightarrow> \<not> invalid_char c"
  using set_sub_spaces [of s] no_invalid_95 by auto

lemma sub_spaces_id: "\<forall>c\<in>set s. \<not> is_space c \<Longrightarrow> sub_spaces s = s"
  by (induction s rule: sub_spaces.induct) auto

lemma set_strip: "set (strip chars s) \<subseteq> set s"
  unfolding strip_def by (auto dest!: set_dropWhileD)

lemma last_dropWhile: "dropWhile P xs \<noteq> [] \<Longrightarrow> last (dropWhile P xs) = last xs"
  by (induction xs) (auto split: if_splits)

lemma strip_ends:
  assumes "strip chars s \<noteq> []"
  shows "hd (strip chars s) \<notin> set chars" and "last (strip chars s) \<notin> set chars"
proof -
  let ?P = "\<lambda>c. c \<in> set chars"
  let ?t = "dropWhile ?P s"
  let ?u = "dropWhile ?P (rev ?t)"
  from assms have u: "?u \<noteq> []" by (simp add: strip_def)
  have t: "?t \<noteq> []"
  proof
    assume "?t = []"
    then have "?u = []" by (simp only: rev.simps dropWhile.simps)
    with u show False by simp
  qed
  have "hd (strip chars s) = last ?u"
    using u by (simp add: strip_def hd_rev)
  also have "\<dots> = last (rev ?t)" using u by (rule last_dropWhile)
  also have "\<dots> = hd ?t" using t by (simp add: last_rev)
  finally have "hd (strip chars s) = hd ?t" .
  moreover have "\<not> ?P (hd ?t)" using t by (rule hd_dropWhile)
  ultimately show "hd (strip chars s) \<notin> set chars" by simp
  have "last (strip chars s) = hd ?u"
    using u by (simp add: strip_def last_rev)
  moreover have "\<not> ?P (hd ?u)" using u by (rule hd_dropWhile)
  ultimately show "last (strip chars s) \<notin> set chars" by simp
qed

lemma dropWhile_id: "xs = [] \<or> \<not> P (hd xs) \<Longrightarrow> dropWhile P xs = xs"
  by (cases xs) auto

lemma strip_id:
  assumes "s = [] \<or> (hd s \<notin> set chars \<and> last s \<notin> set chars)"
  shows "strip chars s = s"
proof (cases "s = []")
  case True
  then show ?thesis by (simp add: strip_def)
next
  case False
  with assms have h: "hd s \<notin> set chars" and l: "last s \<notin> set chars" by auto
  have 1: "dropWhile (\<lambda>c. c \<in> set chars) s = s"
    using h by (intro dropWhile_id) simp
  have 2: "dropWhile (\<lambda>c. c \<in> set chars) (rev s) = rev s"
    using l False by (intro dropWhile_id) (simp add: hd_rev)
  show ?thesis by (simp add: strip_def 1 2)
qed

lemma sanitize_chars:
  assumes "c \<in> set (sanitize_filename x)"
  shows "\<not> invalid_char c" and "\<not> is_space c"
proof -
  let ?f = "filter (\<lambda>c. \<not> invalid_char c) x"
  from assms have c: "c \<in> set (sub_spaces ?f)"
    using set_strip [of "[32, 46]" "sub_spaces ?f"] by (auto simp: sanitize_filename_def)
  show "\<not> is_space c" using c by (rule sub_spaces_no_space)
  have "\<forall>c\<in>set ?f. \<not> invalid_char c" by simp
  then show "\<not> invalid_char c" using c by (rule sub_spaces_no_invalid)
qed

lemma sanitize_ends:
  assumes "sanitize_filename x \<noteq> []"
  shows "hd (sanitize_filename x) \<notin> {32, 46}" and "last (sanitize_filename x) \<notin> {32, 46}"
  using assms strip_ends [of "[32, 46]" "sub_spaces (filter (\<lambda>c. \<not> invalid_char c) x)"]
  by (simp_all add: sanitize_filename_def)

text \<open>
  C5. For every text, the sanitized text holds none of the characters
  \<open>< > : " / \ | ? *\<close>, holds no whitespace character at all (so no run of
  whitespace), and neither starts nor ends with a space or a dot.
\<close>

theorem sanitize_filename_safe:
  "(\<forall>c\<in>set (sanitize_filename x). c \<notin> set [60, 62, 58, 34, 47, 92, 124, 63, 42] \<and> \<not> is_space c)
   \<and> (sanitize_filename x \<noteq> [] \<longrightarrow>
        hd (sanitize_filename x) \<notin> {32, 46} \<and> last (sanitize_filename x) \<notin> {32, 46})"
  using sanitize_chars [of _ x] sanitize_ends [of x]
  unfolding invalid_char_def by blast

theorem sanitize_filename_safe_witness:
  "sanitize_filename (ascii '' .a<b>:  c?. '') = ascii ''_.ab_c._''
   \<and> list_all (\<lambda>c. c \<notin> set [60, 62, 58, 34, 47, 92, 124, 63, 42] \<and> \<not> is_space c)
        (sanitize_filename (ascii '' .a<b>:  c?. ''))
   \<and> hd (sanitize_filename (ascii '' .a<b>:  c?. '')) \<notin> {32, 46}
   \<and> last (sanitize_filename (ascii '' .a<b>:  c?. '')) \<notin> {32, 46}"
proof -
  have v: "sanitize_filename (ascii '' .a<b>:  c?. '') = ascii ''_.ab_c._''"
    by (simp add: sanitize_filename_def ascii_def strip_def invalid_char_def is_space_def)
  have n: "sanitize_filename (ascii '' .a<b>:  c?. '') \<noteq> []"
    by (subst v) (simp add: ascii_def)
  show ?thesis
    using sanitize_filename_safe [of "ascii '' .a<b>:  c?. ''"] n v
    by (simp add: list_all_iff)
qed

text \<open>
  C6. Sanitizing is idempotent: a sanitized text is left as it is by a second pass.
\<close>

theorem sanitize_filename_idempotent:
  "sanitize_filename (sanitize_filename x) = sanitize_filename x"
proof -
  let ?y = "sanitize_filename x"
  have 1: "filter (\<lambda>c. \<not> invalid_char c) ?y = ?y"
    using sanitize_chars(1) [of _ x] by (simp add: filter_id_conv)
  have 2: "sub_spaces ?y = ?y"
    using sanitize_chars(2) [of _ x] by (intro sub_spaces_id) blast
  have 3: "strip [32, 46] ?y = ?y"
    using sanitize_ends [of x] by (intro strip_id) auto
  have "sanitize_filename ?y = strip [32, 46] (sub_spaces (filter (\<lambda>c. \<not> invalid_char c) ?y))"
    by (simp add: sanitize_filename_def)
  then show ?thesis by (simp only: 1 2 3)
qed

section \<open>Properties of parse_date_to_yyyymmdd\<close>

subsection \<open>Decimal digits\<close>

lemma nd_zeros_split: "nd_zeros = 48 # 1632 # drop 2 nd_zeros"
  by (simp add: nd_zeros_def)

lemma nd_zeros_tail_ge: "\<forall>z\<in>set (drop 2 nd_zeros). 1632 \<le> z"
  by (simp add: nd_zeros_def)

lemma digit_value_ascii: "48 \<le> c \<Longrightarrow> c \<le> 57 \<Longrightarrow> digit_value c = Some (c - 48)"
  unfolding digit_value_def by (subst nd_zeros_split) simp

lemma digit_value_arabic:
  "1632 \<le> c \<Longrightarrow> c \<le> 1641 \<Longrightarrow> digit_value c = Some (c - 1632)"
  unfolding digit_value_def by (subst nd_zeros_split) simp

lemma digit_value_low: "c < 48 \<Longrightarrow> digit_value c = None"
proof -
  assume c: "c < 48"
  have "\<forall>z\<in>set nd_zeros. 48 \<le> z"
    using nd_zeros_tail_ge by (subst nd_zeros_split) auto
  then have "filter (\<lambda>z. z \<le> c \<and> c \<le> z + 9) nd_zeros = []"
    using c by (auto simp: filter_empty_conv)
  then show ?thesis by (simp add: digit_value_def)
qed

lemma digit_value_mid: "57 < c \<Longrightarrow> c < 1632 \<Longrightarrow> digit_value c = None"
proof -
  assume c: "57 < c" "c < 1632"
  have "filter (\<lambda>z. z \<le> c \<and> c \<le> z + 9) (drop 2 nd_zeros) = []"
    using c nd_zeros_tail_ge by (auto simp: filter_empty_conv)
  then show ?thesis
    unfolding digit_value_def using c by (subst nd_zeros_split) simp
qed

subsection \<open>The matcher finds exactly the texts of the language\<close>

lemma rx_match_iff: "(u, v) \<in> set (rx_match r s) \<longleftrightarrow> s = u @ v \<and> u \<in> lang r"
proof (induction r arbitrary: s u v)
  case (Cat r1 r2)
  show ?case
  proof
    assume "(u, v) \<in> set (rx_match (Cat r1 r2) s)"
    then obtain a t b where "(a, t) \<in> set (rx_match r1 s)" "(b, v) \<in> set (rx_match r2 t)" "u = a @ b"
      by auto
    then show "s = u @ v \<and> u \<in> lang (Cat r1 r2)"
      using Cat.IH by auto
  next
    assume "s = u @ v \<and> u \<in> lang (Cat r1 r2)"
    then obtain a b where ab: "u = a @ b" "a \<in> lang r1" "b \<in> lang r2" and s: "s = u @ v" by auto
    have 1: "(a, b @ v) \<in> set (rx_match r1 s)" using ab s Cat.IH(1) by simp
    have 2: "(b, v) \<in> set (rx_match r2 (b @ v))" using ab Cat.IH(2) by simp
    from 1 2 ab show "(u, v) \<in> set (rx_match (Cat r1 r2) s)" by force
  qed
qed (auto split: list.splits)

lemma seq_match_iff:
  "((g, u), v) \<in> set (seq_match r ms) \<longleftrightarrow> (\<exists>t. (g, t) \<in> set ms \<and> t = u @ v \<and> u \<in> lang r)"
proof
  assume "((g, u), v) \<in> set (seq_match r ms)"
  then show "\<exists>t. (g, t) \<in> set ms \<and> t = u @ v \<and> u \<in> lang r"
    unfolding seq_match_def by (auto simp: rx_match_iff)
next
  assume "\<exists>t. (g, t) \<in> set ms \<and> t = u @ v \<and> u \<in> lang r"
  then have 1: "(g, u @ v) \<in> set ms" and 2: "(u, v) \<in> set (rx_match r (u @ v))"
    by (auto simp: rx_match_iff)
  then show "((g, u), v) \<in> set (seq_match r ms)"
    unfolding seq_match_def by force
qed

lemma format_regex_match_iff:
  "((((((g, d), h1), m), h2), y), r) \<in> set (format_regex_match s) \<longleftrightarrow>
     s = d @ 45 # m @ 45 # y @ r \<and> h1 = [45] \<and> h2 = [45] \<and>
     d \<in> lang rx_d \<and> m \<in> lang rx_m \<and> y \<in> lang rx_Y"
  unfolding format_regex_match_def by (auto simp: seq_match_iff)

lemma not_decimal_45: "\<not> is_decimal 45"
  by (simp add: is_decimal_def digit_value_low)

lemma lang_CatI: "u \<in> lang r1 \<Longrightarrow> v \<in> lang r2 \<Longrightarrow> u @ v \<in> lang (Cat r1 r2)"
  unfolding lang.simps by blast

lemma lang_Cat_Chr: "t \<in> lang (Cat (Chr c) r) \<longleftrightarrow> (\<exists>v. t = c # v \<and> v \<in> lang r)"
proof
  assume "t \<in> lang (Cat (Chr c) r)"
  then show "\<exists>v. t = c # v \<and> v \<in> lang r" by auto
next
  assume "\<exists>v. t = c # v \<and> v \<in> lang r"
  then obtain v where t: "t = c # v" and v: "v \<in> lang r" by auto
  have "[c] \<in> lang (Chr c)" by simp
  from lang_CatI [OF this v] t show "t \<in> lang (Cat (Chr c) r)" by simp
qed

lemma lang_Cat_Rng:
  "t \<in> lang (Cat (Rng lo hi) r) \<longleftrightarrow> (\<exists>x v. t = x # v \<and> lo \<le> x \<and> x \<le> hi \<and> v \<in> lang r)"
proof
  assume "t \<in> lang (Cat (Rng lo hi) r)"
  then show "\<exists>x v. t = x # v \<and> lo \<le> x \<and> x \<le> hi \<and> v \<in> lang r" by auto
next
  assume "\<exists>x v. t = x # v \<and> lo \<le> x \<and> x \<le> hi \<and> v \<in> lang r"
  then obtain x v where t: "t = x # v" and x: "lo \<le> x" "x \<le> hi" and v: "v \<in> lang r" by auto
  have "[x] \<in> lang (Rng lo hi)" using x by simp
  from lang_CatI [OF this v] t show "t \<in> lang (Cat (Rng lo hi) r)" by simp
qed

lemma lang_Cat_Dig:
  "t \<in> lang (Cat Dig r) \<longleftrightarrow> (\<exists>x v. t = x # v \<and> is_decimal x \<and> v \<in> lang r)"
proof
  assume "t \<in> lang (Cat Dig r)"
  then show "\<exists>x v. t = x # v \<and> is_decimal x \<and> v \<in> lang r" by auto
next
  assume "\<exists>x v. t = x # v \<and> is_decimal x \<and> v \<in> lang r"
  then obtain x v where t: "t = x # v" and x: "is_decimal x" and v: "v \<in> lang r" by auto
  have "[x] \<in> lang Dig" using x by simp
  from lang_CatI [OF this v] t show "t \<in> lang (Cat Dig r)" by simp
qed

lemmas lang_Cat_atoms = lang_Cat_Chr lang_Cat_Rng lang_Cat_Dig

lemma lang_rx_d_iff:
  "t \<in> lang rx_d \<longleftrightarrow>
     (\<exists>b. t = [51, b] \<and> 48 \<le> b \<and> b \<le> 49) \<or>
     (\<exists>a b. t = [a, b] \<and> 49 \<le> a \<and> a \<le> 50 \<and> is_decimal b) \<or>
     (\<exists>b. t = [48, b] \<and> 49 \<le> b \<and> b \<le> 57) \<or>
     (\<exists>b. t = [b] \<and> 49 \<le> b \<and> b \<le> 57) \<or>
     (\<exists>b. t = [32, b] \<and> 49 \<le> b \<and> b \<le> 57)"
  unfolding rx_d_def by (auto simp: lang_Cat_atoms simp del: lang.simps(5))

lemma lang_rx_m_iff:
  "t \<in> lang rx_m \<longleftrightarrow>
     (\<exists>b. t = [49, b] \<and> 48 \<le> b \<and> b \<le> 50) \<or>
     (\<exists>b. t = [48, b] \<and> 49 \<le> b \<and> b \<le> 57) \<or>
     (\<exists>b. t = [b] \<and> 49 \<le> b \<and> b \<le> 57)"
  unfolding rx_m_def by (auto simp: lang_Cat_atoms simp del: lang.simps(5))

lemma lang_rx_Y_iff:
  "t \<in> lang rx_Y \<longleftrightarrow>
     (\<exists>a b c d. t = [a, b, c, d] \<and> is_decimal a \<and> is_decimal b \<and> is_decimal c \<and> is_decimal d)"
  unfolding rx_Y_def by (auto simp: lang_Cat_atoms simp del: lang.simps(5))

lemma lang_rx_d_no_hyphen: "t \<in> lang rx_d \<Longrightarrow> 45 \<notin> set t"
  using not_decimal_45 by (auto simp: lang_rx_d_iff)

lemma lang_rx_m_no_hyphen: "t \<in> lang rx_m \<Longrightarrow> 45 \<notin> set t"
  by (auto simp: lang_rx_m_iff)

lemma lang_rx_Y_length: "t \<in> lang rx_Y \<Longrightarrow> length t = 4"
  by (auto simp: lang_rx_Y_iff)

subsection \<open>The first candidate is the only one\<close>

lemma split_unique:
  "c \<notin> set a \<Longrightarrow> c \<notin> set a' \<Longrightarrow> a @ c # t = a' @ c # t' \<Longrightarrow> a = a' \<and> t = t'"
proof (induction a arbitrary: a')
  case Nil
  then show ?case by (cases a') auto
next
  case (Cons x a)
  then show ?case by (cases a') auto
qed

lemma format_regex_match_unique:
  assumes "x \<in> set (format_regex_match s)" and "x' \<in> set (format_regex_match s)"
  shows "x = x'"
proof -
  obtain g d h1 m h2 y r where x: "x = ((((((g, d), h1), m), h2), y), r)"
    by (metis surj_pair)
  obtain g' d' h1' m' h2' y' r' where x': "x' = ((((((g', d'), h1'), m'), h2'), y'), r')"
    by (metis surj_pair)
  from assms(1) x have 1: "s = d @ 45 # m @ 45 # y @ r" "h1 = [45]" "h2 = [45]"
    "d \<in> lang rx_d" "m \<in> lang rx_m" "y \<in> lang rx_Y"
    by (simp_all add: format_regex_match_iff)
  from assms(2) x' have 2: "s = d' @ 45 # m' @ 45 # y' @ r'" "h1' = [45]" "h2' = [45]"
    "d' \<in> lang rx_d" "m' \<in> lang rx_m" "y' \<in> lang rx_Y"
    by (simp_all add: format_regex_match_iff)
  have "d @ 45 # (m @ 45 # y @ r) = d' @ 45 # (m' @ 45 # y' @ r')"
    using 1(1) 2(1) by simp
  then have d: "d = d'" and t: "m @ 45 # (y @ r) = m' @ 45 # (y' @ r')"
    using split_unique [of 45 d d'] lang_rx_d_no_hyphen 1(4) 2(4) by auto
  then have m: "m = m'" and u: "y @ r = y' @ r'"
    using split_unique [of 45 m m'] lang_rx_m_no_hyphen 1(5) 2(5) by auto
  have "length y = length y'" using lang_rx_Y_length 1(6) 2(6) by simp
  with u have "y = y'" "r = r'" by auto
  with d m 1 2 x x' show ?thesis by simp
qed

lemma format_regex_match_first:
  assumes "x \<in> set (format_regex_match s)"
  shows "\<exists>rest. format_regex_match s = x # rest"
proof (cases "format_regex_match s")
  case Nil
  with assms show ?thesis by simp
next
  case (Cons x' rest)
  then have "x' \<in> set (format_regex_match s)" by simp
  with assms have "x = x'" by (rule format_regex_match_unique)
  with Cons show ?thesis by simp
qed

lemma strptime_dmY_lang:
  "strptime_dmY s = Some dt \<longleftrightarrow>
     (\<exists>d m y. s = d @ 45 # m @ 45 # y \<and> d \<in> lang rx_d \<and> m \<in> lang rx_m \<and> y \<in> lang rx_Y \<and>
        py_int y = Some (fst dt) \<and> py_int m = Some (fst (snd dt)) \<and>
        py_int d = Some (snd (snd dt)) \<and>
        valid_date (fst dt) (fst (snd dt)) (snd (snd dt)))"
  (is "_ \<longleftrightarrow> ?R")
proof
  assume a: "strptime_dmY s = Some dt"
  then obtain x rest where c: "format_regex_match s = x # rest"
    by (auto simp: strptime_dmY_def split: list.splits)
  obtain g d h1 m h2 y r where x: "x = ((((((g, d), h1), m), h2), y), r)"
    by (metis surj_pair)
  have "x \<in> set (format_regex_match s)" using c by simp
  then have 1: "s = d @ 45 # m @ 45 # y @ r" "d \<in> lang rx_d" "m \<in> lang rx_m" "y \<in> lang rx_Y"
    using x by (simp_all add: format_regex_match_iff)
  from a c x have "r = []" "py_int y = Some (fst dt)" "py_int m = Some (fst (snd dt))"
    "py_int d = Some (snd (snd dt))" "valid_date (fst dt) (fst (snd dt)) (snd (snd dt))"
    by (auto simp: strptime_dmY_def split: if_splits option.splits)
  with 1 show ?R by auto
next
  assume ?R
  then obtain d m y where 1: "s = d @ 45 # m @ 45 # y" "d \<in> lang rx_d" "m \<in> lang rx_m"
    "y \<in> lang rx_Y" "py_int y = Some (fst dt)" "py_int m = Some (fst (snd dt))"
    "py_int d = Some (snd (snd dt))" "valid_date (fst dt) (fst (snd dt)) (snd (snd dt))"
    by auto
  then have "(((((((), d), [45]), m), [45]), y), []) \<in> set (format_regex_match s)"
    by (simp add: format_regex_match_iff)
  then obtain rest where "format_regex_match s = (((((((), d), [45]), m), [45]), y), []) # rest"
    using format_regex_match_first by blast
  with 1 show "strptime_dmY s = Some dt"
    by (simp add: strptime_dmY_def)
qed

subsection \<open>Rendering\<close>

lemma show_nat_small: "n < 10 \<Longrightarrow> show_nat n = [48 + n]"
  by (simp add: show_nat.simps)

lemma show_nat_two: "10 \<le> n \<Longrightarrow> n < 100 \<Longrightarrow> show_nat n = two_digits n"
  by (subst show_nat.simps) (simp add: show_nat_small two_digits_def)

lemma show_nat_three:
  "100 \<le> n \<Longrightarrow> n < 1000 \<Longrightarrow> show_nat n = [48 + n div 100, 48 + n div 10 mod 10, 48 + n mod 10]"
  by (subst show_nat.simps) (simp add: show_nat_two two_digits_def div_mult2_eq [symmetric])

lemma show_nat_four: "1000 \<le> n \<Longrightarrow> n < 10000 \<Longrightarrow> show_nat n = four_digits n"
  by (subst show_nat.simps) (simp add: show_nat_three four_digits_def div_mult2_eq [symmetric])

lemma replicate_small:
  "replicate 1 x = [x]" "replicate 2 x = [x, x]" "replicate 3 x = [x, x, x]"
  by (simp_all add: numeral_2_eq_2 numeral_3_eq_3)

lemma zfill_two: "n < 100 \<Longrightarrow> zfill 2 (show_nat n) = two_digits n"
proof (cases "n < 10")
  case True
  then show ?thesis by (simp add: zfill_def show_nat_small two_digits_def replicate_small)
next
  case False
  assume "n < 100"
  with False show ?thesis by (simp add: zfill_def show_nat_two) (simp add: two_digits_def)
qed

lemma zfill_four: "n < 10000 \<Longrightarrow> zfill 4 (show_nat n) = four_digits n"
proof -
  assume n: "n < 10000"
  consider "n < 10" | "10 \<le> n" "n < 100" | "100 \<le> n" "n < 1000" | "1000 \<le> n"
    by linarith
  then show ?thesis
  proof cases
    case 1
    then show ?thesis
      by (simp add: zfill_def show_nat_small four_digits_def replicate_small)
  next
    case 2
    then show ?thesis
      by (simp add: zfill_def show_nat_two) (simp add: two_digits_def four_digits_def replicate_small)
  next
    case 3
    then show ?thesis
      by (simp add: zfill_def show_nat_three) (simp add: four_digits_def)
  next
    case 4
    with n show ?thesis
      by (simp add: zfill_def show_nat_four) (simp add: four_digits_def)
  qed
qed

lemma not_space_digit: "48 \<le> c \<Longrightarrow> c \<le> 57 \<Longrightarrow> \<not> is_space c"
  by (simp add: is_space_def)

lemma is_decimal_ascii: "48 \<le> c \<Longrightarrow> c \<le> 57 \<Longrightarrow> is_decimal c"
  by (simp add: is_decimal_def digit_value_ascii)

subsection \<open>The description of the parts and the pattern agree\<close>

lemma day_text_lang: "day_text t \<longleftrightarrow> t \<in> lang rx_d"
  unfolding day_text_def ascii_1_to_9_def lang_rx_d_iff by auto

lemma month_text_lang: "month_text t \<longleftrightarrow> t \<in> lang rx_m"
  unfolding month_text_def ascii_1_to_9_def lang_rx_m_iff by auto

lemma year_text_lang: "year_text t \<longleftrightarrow> t \<in> lang rx_Y"
proof
  assume "year_text t"
  then have l: "length t = 4" and a: "list_all is_decimal t" by (simp_all add: year_text_def)
  from l obtain a b c d where "t = [a, b, c, d]"
    by (auto simp: length_Suc_conv numeral_eq_Suc)
  with a show "t \<in> lang rx_Y" by (simp add: lang_rx_Y_iff)
next
  assume "t \<in> lang rx_Y"
  then show "year_text t" by (auto simp: lang_rx_Y_iff year_text_def)
qed

lemma is_space_cases:
  "is_space c \<Longrightarrow>
     c \<in> {9, 10, 11, 12, 13, 28, 29, 30, 31, 32, 133, 160, 5760, 8192, 8193, 8194, 8195, 8196,
          8197, 8198, 8199, 8200, 8201, 8202, 8232, 8233, 8239, 8287, 12288}"
  unfolding is_space_def by (elim disjE conjE) (simp_all, arith+)

lemma is_space_not_decimal: "is_space c \<Longrightarrow> \<not> is_decimal c"
proof -
  assume "is_space c"
  then have "c \<in> {9, 10, 11, 12, 13, 28, 29, 30, 31, 32, 133, 160, 5760, 8192, 8193, 8194, 8195,
      8196, 8197, 8198, 8199, 8200, 8201, 8202, 8232, 8233, 8239, 8287, 12288}"
    by (rule is_space_cases)
  then show ?thesis
    by (elim insertE emptyE) (simp_all add: is_decimal_def digit_value_def nd_zeros_def)
qed

lemma dropWhile_none: "\<forall>x\<in>set xs. \<not> P x \<Longrightarrow> dropWhile P xs = xs"
  by (cases xs) auto

lemma int_digits_decimals:
  "list_all is_decimal t \<Longrightarrow>
     int_digits acc t =
       Some (foldl (\<lambda>n c. case digit_value c of None \<Rightarrow> n | Some v \<Rightarrow> 10 * n + v) acc t)"
  by (induction t arbitrary: acc) (auto simp: is_decimal_def)

lemma py_int_decimals:
  assumes "t \<noteq> []" and "list_all is_decimal t"
  shows "py_int t = Some (number_of t)"
proof -
  from assms(2) have n: "\<forall>x\<in>set t. \<not> is_space x"
    using is_space_not_decimal by (auto simp: list_all_iff)
  then have 1: "dropWhile is_space t = t" by (rule dropWhile_none)
  from n have "\<forall>x\<in>set (rev t). \<not> is_space x" by simp
  then have 2: "dropWhile is_space (rev t) = rev t" by (rule dropWhile_none)
  show ?thesis
    using assms by (simp add: py_int_def 1 2 number_of_def int_digits_decimals)
qed

lemma py_int_space_digit:
  assumes "ascii_1_to_9 b"
  shows "py_int [32, b] = Some (number_of [32, b])"
proof -
  from assms have b: "48 \<le> b" "b \<le> 57" by (simp_all add: ascii_1_to_9_def)
  have s: "is_space 32" by (simp add: is_space_def)
  have n: "digit_value 32 = None" by (simp add: digit_value_low)
  show ?thesis
    using b by (simp add: py_int_def s n not_space_digit digit_value_ascii number_of_def)
qed

lemma ascii_1_to_9_decimal: "ascii_1_to_9 b \<Longrightarrow> is_decimal b"
  by (simp add: ascii_1_to_9_def is_decimal_ascii)

lemma is_decimal_consts:
  "is_decimal 48" "is_decimal 49" "is_decimal 50" "is_decimal 51"
  by (simp_all add: is_decimal_ascii)

lemma py_int_day: "day_text t \<Longrightarrow> py_int t = Some (number_of t)"
  unfolding day_text_def
  by (elim disjE exE conjE)
     (simp_all add: py_int_decimals py_int_space_digit ascii_1_to_9_decimal is_decimal_consts)

lemma py_int_month: "month_text t \<Longrightarrow> py_int t = Some (number_of t)"
  unfolding month_text_def
  by (elim disjE exE conjE)
     (simp_all add: py_int_decimals ascii_1_to_9_decimal is_decimal_consts)

lemma py_int_year: "year_text t \<Longrightarrow> py_int t = Some (number_of t)"
proof -
  assume y: "year_text t"
  then have "t \<noteq> []" by (auto simp: year_text_def)
  with y show ?thesis by (simp add: py_int_decimals year_text_def)
qed

lemma reads_as_lang:
  "reads_as s dt \<longleftrightarrow>
     (\<exists>d m y. s = d @ 45 # m @ 45 # y \<and> d \<in> lang rx_d \<and> m \<in> lang rx_m \<and> y \<in> lang rx_Y \<and>
        py_int y = Some (fst dt) \<and> py_int m = Some (fst (snd dt)) \<and>
        py_int d = Some (snd (snd dt)) \<and>
        valid_date (fst dt) (fst (snd dt)) (snd (snd dt)))"
  (is "_ \<longleftrightarrow> ?R")
proof
  assume "reads_as s dt"
  then obtain d m y where 1: "s = d @ 45 # m @ 45 # y" "day_text d" "month_text m"
    "year_text y" "dt = (number_of y, number_of m, number_of d)"
    "valid_date (number_of y) (number_of m) (number_of d)"
    unfolding reads_as_def by blast
  from 1(2-4) have "d \<in> lang rx_d" "m \<in> lang rx_m" "y \<in> lang rx_Y"
    by (simp_all add: day_text_lang month_text_lang year_text_lang)
  moreover from 1(2-5) have "py_int y = Some (fst dt)" "py_int m = Some (fst (snd dt))"
    "py_int d = Some (snd (snd dt))"
    by (simp_all add: py_int_day py_int_month py_int_year)
  moreover from 1(5,6) have "valid_date (fst dt) (fst (snd dt)) (snd (snd dt))" by simp
  ultimately show ?R using 1(1) by blast
next
  assume ?R
  then obtain d m y where 1: "s = d @ 45 # m @ 45 # y" "d \<in> lang rx_d" "m \<in> lang rx_m"
    "y \<in> lang rx_Y" "py_int y = Some (fst dt)" "py_int m = Some (fst (snd dt))"
    "py_int d = Some (snd (snd dt))" "valid_date (fst dt) (fst (snd dt)) (snd (snd dt))"
    by blast
  from 1(2-4) have t: "day_text d" "month_text m" "year_text y"
    by (simp_all add: day_text_lang month_text_lang year_text_lang)
  with 1(5-7) have n: "fst dt = number_of y" "fst (snd dt) = number_of m"
    "snd (snd dt) = number_of d"
    by (simp_all add: py_int_day py_int_month py_int_year)
  then have e: "dt = (number_of y, number_of m, number_of d)"
    by (cases dt) simp
  from 1(8) n have "valid_date (number_of y) (number_of m) (number_of d)" by simp
  with 1(1) t e show "reads_as s dt" unfolding reads_as_def by blast
qed

lemma strptime_dmY_iff: "strptime_dmY s = Some dt \<longleftrightarrow> reads_as s dt"
  by (simp only: strptime_dmY_lang reads_as_lang)

lemma py_int_two:
  assumes "48 \<le> a" "a \<le> 57" "48 \<le> b" "b \<le> 57"
  shows "py_int [a, b] = Some (10 * (a - 48) + (b - 48))"
  using assms by (simp add: py_int_def not_space_digit digit_value_ascii)

lemma py_int_four:
  assumes "48 \<le> a" "a \<le> 57" "48 \<le> b" "b \<le> 57" "48 \<le> c" "c \<le> 57" "48 \<le> d" "d \<le> 57"
  shows "py_int [a, b, c, d] = Some (10 * (10 * (10 * (a - 48) + (b - 48)) + (c - 48)) + (d - 48))"
  using assms by (simp add: py_int_def not_space_digit digit_value_ascii)

lemma digits_of_small:
  fixes n :: nat
  assumes "n < 10000"
  shows "n div 1000 \<le> 9" "n div 100 mod 10 \<le> 9" "n div 10 mod 10 \<le> 9" "n mod 10 \<le> 9"
proof -
  have "n div 1000 < 10" using assms by (simp add: less_mult_imp_div_less)
  then show "n div 1000 \<le> 9" by simp
  have "n div 100 mod 10 < 10" "n div 10 mod 10 < 10" "n mod 10 < 10" by simp_all
  then show "n div 100 mod 10 \<le> 9" "n div 10 mod 10 \<le> 9" "n mod 10 \<le> 9" by simp_all
qed

lemma decimal_combine:
  fixes n :: nat
  shows "n = 10 * a + r0 \<Longrightarrow> a = 10 * b + r1 \<Longrightarrow> b = 10 * c + r2 \<Longrightarrow>
         1000 * c + 100 * r2 + 10 * r1 + r0 = n"
  by simp

lemma four_digits_value:
  fixes n :: nat
  shows "1000 * (n div 1000) + 100 * (n div 100 mod 10) + 10 * (n div 10 mod 10) + n mod 10 = n"
proof -
  have 1: "n = 10 * (n div 10) + n mod 10" by simp
  have 4: "n div 10 div 10 = n div 100" by (simp add: div_mult2_eq [symmetric])
  have 5: "n div 100 div 10 = n div 1000" by (simp add: div_mult2_eq [symmetric])
  have "n div 10 = 10 * (n div 10 div 10) + n div 10 mod 10" by simp
  then have 2: "n div 10 = 10 * (n div 100) + n div 10 mod 10" by (simp only: 4)
  have "n div 100 = 10 * (n div 100 div 10) + n div 100 mod 10" by simp
  then have 3: "n div 100 = 10 * (n div 1000) + n div 100 mod 10" by (simp only: 5)
  from 1 2 3 show ?thesis by (rule decimal_combine)
qed

lemma py_int_two_digits: "n < 100 \<Longrightarrow> py_int (two_digits n) = Some n"
proof -
  assume n: "n < 100"
  have "n div 10 < 10" using n by (simp add: less_mult_imp_div_less)
  then have a: "48 \<le> 48 + n div 10" "48 + n div 10 \<le> 57" by simp_all
  have "n mod 10 < 10" by simp
  then have b: "48 \<le> 48 + n mod 10" "48 + n mod 10 \<le> 57" by simp_all
  show ?thesis
    unfolding two_digits_def by (subst py_int_two [OF a b]) simp
qed

lemma py_int_four_digits: "n < 10000 \<Longrightarrow> py_int (four_digits n) = Some n"
proof -
  assume n: "n < 10000"
  note d = digits_of_small [OF n]
  have a: "48 \<le> 48 + n div 1000" "48 + n div 1000 \<le> 57" using d by simp_all
  have b: "48 \<le> 48 + n div 100 mod 10" "48 + n div 100 mod 10 \<le> 57" using d by simp_all
  have c: "48 \<le> 48 + n div 10 mod 10" "48 + n div 10 mod 10 \<le> 57" using d by simp_all
  have e: "48 \<le> 48 + n mod 10" "48 + n mod 10 \<le> 57" using d by simp_all
  show ?thesis
    unfolding four_digits_def
    by (subst py_int_four [OF a b c e]) (simp add: four_digits_value)
qed

lemma valid_date_bounds:
  assumes "valid_date y m d"
  shows "1 \<le> y" "y < 10000" "1 \<le> m" "m \<le> 12" "1 \<le> d" "d \<le> 31"
  using assms by (auto simp: valid_date_def days_in_month_def split: if_splits)

lemma two_digits_day: "1 \<le> d \<Longrightarrow> d \<le> 31 \<Longrightarrow> two_digits d \<in> lang rx_d"
proof -
  assume d: "1 \<le> d" "d \<le> 31"
  consider "d < 10" | "10 \<le> d" "d < 20" | "20 \<le> d" "d < 30" | "d = 30" | "d = 31"
    using d by linarith
  then show ?thesis
  proof cases
    case 1
    with d show ?thesis by (simp add: two_digits_def lang_rx_d_iff)
  next
    case 2
    then have "d div 10 = 1" by simp
    moreover have "is_decimal (48 + d mod 10)" by (rule is_decimal_ascii) simp_all
    ultimately show ?thesis by (simp add: two_digits_def lang_rx_d_iff)
  next
    case 3
    then have "d div 10 = 2" by simp
    moreover have "is_decimal (48 + d mod 10)" by (rule is_decimal_ascii) simp_all
    ultimately show ?thesis by (simp add: two_digits_def lang_rx_d_iff)
  next
    case 4
    then show ?thesis by (simp add: two_digits_def lang_rx_d_iff)
  next
    case 5
    then show ?thesis by (simp add: two_digits_def lang_rx_d_iff)
  qed
qed

lemma two_digits_month: "1 \<le> m \<Longrightarrow> m \<le> 12 \<Longrightarrow> two_digits m \<in> lang rx_m"
proof -
  assume m: "1 \<le> m" "m \<le> 12"
  consider "m < 10" | "m = 10" | "m = 11" | "m = 12"
    using m by linarith
  then show ?thesis
    using m by cases (simp_all add: two_digits_def lang_rx_m_iff)
qed

lemma four_digits_year: "y < 10000 \<Longrightarrow> four_digits y \<in> lang rx_Y"
proof -
  assume y: "y < 10000"
  note d = digits_of_small [OF y]
  have "is_decimal (48 + y div 1000)" "is_decimal (48 + y div 100 mod 10)"
    "is_decimal (48 + y div 10 mod 10)" "is_decimal (48 + y mod 10)"
    using d by (simp_all add: is_decimal_ascii)
  then show ?thesis by (simp add: four_digits_def lang_rx_Y_iff)
qed

lemma strict_reads_as:
  assumes "valid_date y m d"
  shows "reads_as (two_digits d @ 45 # two_digits m @ 45 # four_digits y) (y, m, d)"
proof -
  note b = valid_date_bounds [OF assms]
  have "two_digits d \<in> lang rx_d" using b by (simp add: two_digits_day)
  moreover have "two_digits m \<in> lang rx_m" using b by (simp add: two_digits_month)
  moreover have "four_digits y \<in> lang rx_Y" using b by (simp add: four_digits_year)
  moreover have "py_int (two_digits d) = Some d" using b by (simp add: py_int_two_digits)
  moreover have "py_int (two_digits m) = Some m" using b by (simp add: py_int_two_digits)
  moreover have "py_int (four_digits y) = Some y" using b by (simp add: py_int_four_digits)
  ultimately show ?thesis
    unfolding reads_as_lang using assms by auto
qed

lemma strftime_Ymd_eight:
  assumes "valid_date y m d" and "pad \<or> 1000 \<le> y"
  shows "strftime_Ymd pad (y, m, d) = four_digits y @ two_digits m @ two_digits d"
proof -
  note b = valid_date_bounds [OF assms(1)]
  have m: "zfill 2 (show_nat m) = two_digits m" using b by (simp add: zfill_two)
  have d: "zfill 2 (show_nat d) = two_digits d" using b by (simp add: zfill_two)
  have y: "(if pad then zfill 4 (show_nat y) else show_nat y) = four_digits y"
    using b assms(2) by (auto simp: zfill_four show_nat_four)
  show ?thesis by (simp add: strftime_Ymd_def m d y)
qed

subsection \<open>The result of parse_date_to_yyyymmdd\<close>

lemma parse_date_reads_as:
  "reads_as s dt \<Longrightarrow> parse_date_to_yyyymmdd pad s = strftime_Ymd pad dt"
  by (simp add: parse_date_to_yyyymmdd_def strptime_dmY_iff [THEN iffD2])

lemma parse_date_fallback:
  "\<forall>dt. \<not> reads_as s dt \<Longrightarrow> parse_date_to_yyyymmdd pad s = filter is_decimal s"
proof -
  assume "\<forall>dt. \<not> reads_as s dt"
  then have n: "\<And>dt. strptime_dmY s \<noteq> Some dt"
    using strptime_dmY_iff [of s] by blast
  have "strptime_dmY s = None"
  proof (cases "strptime_dmY s")
    case None
    then show ?thesis .
  next
    case (Some dt)
    with n [of dt] show ?thesis by simp
  qed
  then show ?thesis by (simp add: parse_date_to_yyyymmdd_def)
qed

text \<open>
  C4, amended. The function returns a text for every input (it is total: every
  \<open>ValueError\<close> of \<open>strptime\<close> is a branch of the model).

  \<^item> If the input is read as a date (\<open>reads_as\<close>: a day, a hyphen, a month, a hyphen
    and a year as described by \<open>day_text\<close>, \<open>month_text\<close> and \<open>year_text\<close>, that
    name a date of the calendar), and the year is 1000 or later or the C library pads
    \<open>%Y\<close> to four digits, the result is the eight ASCII digits year-month-day.
  \<^item> If the input is not read as a date, the result is the decimal digits of the input
    (category Nd, any script), in their order.
  \<^item> In particular a valid date written strictly with two, two and four ASCII digits
    gives the eight digits, under the same condition on the year.

  A year below 1000 on a C library that does not pad is left out of the statement.
\<close>

theorem parse_date_to_yyyymmdd_cases:
  "(reads_as s (y, m, d) \<and> (pad \<or> 1000 \<le> y) \<longrightarrow>
      parse_date_to_yyyymmdd pad s = four_digits y @ two_digits m @ two_digits d)
   \<and> ((\<forall>dt. \<not> reads_as s dt) \<longrightarrow> parse_date_to_yyyymmdd pad s = filter is_decimal s)
   \<and> (valid_date y' m' d' \<and> (pad \<or> 1000 \<le> y') \<longrightarrow>
        parse_date_to_yyyymmdd pad (two_digits d' @ 45 # two_digits m' @ 45 # four_digits y')
          = four_digits y' @ two_digits m' @ two_digits d')"
proof (intro conjI impI)
  assume a: "reads_as s (y, m, d) \<and> (pad \<or> 1000 \<le> y)"
  then have r: "reads_as s (y, m, d)" and p: "pad \<or> 1000 \<le> y" by auto
  from r have 1: "parse_date_to_yyyymmdd pad s = strftime_Ymd pad (y, m, d)"
    by (rule parse_date_reads_as)
  from r have "valid_date y m d" by (auto simp: reads_as_lang)
  from strftime_Ymd_eight [OF this p] 1
  show "parse_date_to_yyyymmdd pad s = four_digits y @ two_digits m @ two_digits d" by simp
next
  assume "\<forall>dt. \<not> reads_as s dt"
  then show "parse_date_to_yyyymmdd pad s = filter is_decimal s" by (rule parse_date_fallback)
next
  assume a: "valid_date y' m' d' \<and> (pad \<or> 1000 \<le> y')"
  then have v: "valid_date y' m' d'" and p: "pad \<or> 1000 \<le> y'" by auto
  from parse_date_reads_as [OF strict_reads_as [OF v]] strftime_Ymd_eight [OF v p]
  show "parse_date_to_yyyymmdd pad (two_digits d' @ 45 # two_digits m' @ 45 # four_digits y')
          = four_digits y' @ two_digits m' @ two_digits d'" by simp
qed

lemmas date_eval =
  parse_date_to_yyyymmdd_def strptime_dmY_def format_regex_match_def seq_match_def
  rx_d_def rx_m_def rx_Y_def ascii_def is_decimal_def digit_value_ascii digit_value_low
  digit_value_mid py_int_def is_space_def valid_date_def days_in_month_def is_leap_def
  strftime_Ymd_def zfill_def show_nat.simps two_digits_def four_digits_def

theorem parse_date_to_yyyymmdd_cases_witness:
  "reads_as (ascii ''5-3-2024'') (2024, 3, 5)
   \<and> parse_date_to_yyyymmdd False (ascii ''5-3-2024'') = ascii ''20240305''
   \<and> (\<forall>dt. \<not> reads_as (ascii ''abc-12-xyz'') dt)
   \<and> parse_date_to_yyyymmdd False (ascii ''abc-12-xyz'') = ascii ''12''
   \<and> valid_date 1999 12 31
   \<and> parse_date_to_yyyymmdd False (ascii ''31-12-1999'') = ascii ''19991231''"
proof -
  have "strptime_dmY (ascii ''5-3-2024'') = Some (2024, 3, 5)"
    by (simp add: date_eval)
  then have r: "reads_as (ascii ''5-3-2024'') (2024, 3, 5)"
    by (simp only: strptime_dmY_iff)
  have "strptime_dmY (ascii ''abc-12-xyz'') = None"
    by (simp add: date_eval)
  then have n: "\<forall>dt. \<not> reads_as (ascii ''abc-12-xyz'') dt"
    by (simp add: strptime_dmY_iff [symmetric] del: split_paired_All)
  have v: "valid_date 1999 12 31"
    by (simp add: date_eval)
  have f: "filter is_decimal (ascii ''abc-12-xyz'') = ascii ''12''"
    by (simp add: date_eval)
  have e1: "four_digits 2024 @ two_digits 3 @ two_digits 5 = ascii ''20240305''"
    by (simp add: date_eval)
  have e2: "two_digits 31 @ 45 # two_digits 12 @ 45 # four_digits 1999 = ascii ''31-12-1999''"
    by (simp add: date_eval)
  have e3: "four_digits 1999 @ two_digits 12 @ two_digits 31 = ascii ''19991231''"
    by (simp add: date_eval)
  have c1: "False \<or> (1000::nat) \<le> 2024" and c2: "False \<or> (1000::nat) \<le> 1999"
    by simp_all
  note t = parse_date_to_yyyymmdd_cases [of "ascii ''5-3-2024''" 2024 3 5 False 1999 12 31]
  from t r c1
  have "parse_date_to_yyyymmdd False (ascii ''5-3-2024'')
          = four_digits 2024 @ two_digits 3 @ two_digits 5"
    by blast
  then have 1: "parse_date_to_yyyymmdd False (ascii ''5-3-2024'') = ascii ''20240305''"
    by (simp only: e1)
  from t v c2
  have "parse_date_to_yyyymmdd False (two_digits 31 @ 45 # two_digits 12 @ 45 # four_digits 1999)
          = four_digits 1999 @ two_digits 12 @ two_digits 31"
    by blast
  then have 2: "parse_date_to_yyyymmdd False (ascii ''31-12-1999'') = ascii ''19991231''"
    by (simp only: e2 e3)
  from parse_date_to_yyyymmdd_cases [of "ascii ''abc-12-xyz''" 0 0 0 False 0 0 0] n
  have "parse_date_to_yyyymmdd False (ascii ''abc-12-xyz'') = filter is_decimal (ascii ''abc-12-xyz'')"
    by blast
  then have 3: "parse_date_to_yyyymmdd False (ascii ''abc-12-xyz'') = ascii ''12''"
    by (simp only: f)
  from r n v 1 2 3 show ?thesis by blast
qed

text \<open>
  C4 as stated fails, in these ways.

  \<^item> \<open>5-3-2024\<close> is not in the strict ten-character format, yet the result is
    \<open>20240305\<close>, not the digits \<open>532024\<close> of the input (with either C library). The
    same holds for a day written as a space and a digit.
  \<^item> \<open>05-03-0999\<close> is in the strict format and a date of the calendar, yet on a C
    library that does not pad \<open>%Y\<close> the result is the seven digits \<open>9990305\<close>.
  \<^item> \<open>05-03-\<close> followed by the Arabic-Indic digits 2, 0, 2, 4 (code points 1634,
    1632, 1634, 1636) is not written with the digits \<open>0\<close> to \<open>9\<close>, yet the result is
    \<open>20240305\<close>, not the digits of the input; and so it is for the day written \<open>1\<close>
    and the Arabic-Indic digit 5 (code point 1637).
  \<^item> The Arabic-Indic digits 0, 5 followed by \<open>-03-2024\<close> is two digits, two digits
    and four digits and would name the same date, yet the result is the digits of the
    input; and so it is for the month written \<open>0\<close> and the Arabic-Indic digit 3.
\<close>

theorem parse_date_lenient_counterexample:
  "length (ascii ''5-3-2024'') \<noteq> 10
   \<and> parse_date_to_yyyymmdd False (ascii ''5-3-2024'') = ascii ''20240305''
   \<and> parse_date_to_yyyymmdd True (ascii ''5-3-2024'') = ascii ''20240305''
   \<and> filter is_decimal (ascii ''5-3-2024'') = ascii ''532024''
   \<and> parse_date_to_yyyymmdd False (ascii '' 5-03-2024'') = ascii ''20240305''
   \<and> valid_date 999 3 5
   \<and> parse_date_to_yyyymmdd False (ascii ''05-03-0999'') = ascii ''9990305''
   \<and> parse_date_to_yyyymmdd False (ascii ''05-03-'' @ [1634, 1632, 1634, 1636])
       = ascii ''20240305''
   \<and> filter is_decimal (ascii ''05-03-'' @ [1634, 1632, 1634, 1636])
       = ascii ''0503'' @ [1634, 1632, 1634, 1636]
   \<and> parse_date_to_yyyymmdd False (49 # 1637 # ascii ''-03-2024'') = ascii ''20240315''
   \<and> list_all is_decimal [1632, 1637, 1635]
   \<and> parse_date_to_yyyymmdd False ([1632, 1637] @ ascii ''-03-2024'')
       = [1632, 1637] @ ascii ''032024''
   \<and> parse_date_to_yyyymmdd False (ascii ''05-0'' @ 1635 # ascii ''-2024'')
       = ascii ''050'' @ 1635 # ascii ''2024''"
proof -
  have 1: "length (ascii ''5-3-2024'') \<noteq> 10"
    by (simp add: ascii_def)
  have 2: "parse_date_to_yyyymmdd False (ascii ''5-3-2024'') = ascii ''20240305''"
    by (simp add: date_eval replicate_small)
  have 3: "parse_date_to_yyyymmdd True (ascii ''5-3-2024'') = ascii ''20240305''"
    by (simp add: date_eval replicate_small)
  have 4: "filter is_decimal (ascii ''5-3-2024'') = ascii ''532024''"
    by (simp add: date_eval)
  have 5: "parse_date_to_yyyymmdd False (ascii '' 5-03-2024'') = ascii ''20240305''"
    by (simp add: date_eval replicate_small)
  have 6: "valid_date 999 3 5"
    by (simp add: date_eval)
  have 7: "parse_date_to_yyyymmdd False (ascii ''05-03-0999'') = ascii ''9990305''"
    by (simp add: date_eval replicate_small)
  have 8: "parse_date_to_yyyymmdd False (ascii ''05-03-'' @ [1634, 1632, 1634, 1636])
             = ascii ''20240305''"
    by (simp add: date_eval digit_value_arabic replicate_small)
  have 9: "filter is_decimal (ascii ''05-03-'' @ [1634, 1632, 1634, 1636])
             = ascii ''0503'' @ [1634, 1632, 1634, 1636]"
    by (simp add: date_eval digit_value_arabic)
  have 10: "parse_date_to_yyyymmdd False (49 # 1637 # ascii ''-03-2024'') = ascii ''20240315''"
    by (simp add: date_eval digit_value_arabic replicate_small)
  have 11: "list_all is_decimal [1632, 1637, 1635]"
    by (simp add: is_decimal_def digit_value_arabic)
  have 12: "parse_date_to_yyyymmdd False ([1632, 1637] @ ascii ''-03-2024'')
             = [1632, 1637] @ ascii ''032024''"
    by (simp add: date_eval digit_value_arabic)
  have 13: "parse_date_to_yyyymmdd False (ascii ''05-0'' @ 1635 # ascii ''-2024'')
             = ascii ''050'' @ 1635 # ascii ''2024''"
    by (simp add: date_eval digit_value_arabic)
  from 1 2 3 4 5 6 7 8 9 10 11 12 13 show ?thesis by (intro conjI)
qed

section \<open>Properties of generate_new_filename\<close>

lemma rfind_last: "c \<notin> set e \<Longrightarrow> rfind c (stem @ c # e) = Some (length stem)"
proof (induction stem)
  case Nil
  have "rfind c e = None" using Nil by (induction e) auto
  then show ?case by simp
next
  case (Cons x stem)
  then show ?case by simp
qed

lemma suffix_of_name:
  assumes "stem \<noteq> []" "e \<noteq> []" "46 \<notin> set e"
  shows "suffix (dir @ [stem @ 46 # e]) = 46 # e"
  using assms by (simp add: suffix_def name_def rfind_last Let_def)

text \<open>
  C3. The built name is the sanitized issuer, an underscore, the sanitized category, an
  underscore, the normalized date and the original extension, which is the suffix of the
  original path: for a file named \<open>stem.e\<close> it is \<open>.e\<close>. For the issuer
  \<open>Acme Corp\<close>, the category \<open>subscription\<close>, the date \<open>05-03-2024\<close> and a
  \<open>.pdf\<close> file the name is \<open>Acme_Corp_subscription_20240305.pdf\<close>.
\<close>

theorem generate_new_filename_composition:
  "generate_new_filename pad r p =
     sanitize_filename (company_name r) @ [95] @ sanitize_filename (description r) @ [95]
       @ parse_date_to_yyyymmdd pad (issue_date r) @ suffix p
   \<and> (stem \<noteq> [] \<and> e \<noteq> [] \<and> 46 \<notin> set e \<longrightarrow>
        generate_new_filename pad r (dir @ [stem @ 46 # e]) =
          sanitize_filename (company_name r) @ [95] @ sanitize_filename (description r) @ [95]
            @ parse_date_to_yyyymmdd pad (issue_date r) @ 46 # e)
   \<and> generate_new_filename pad
        \<lparr>company_name = ascii ''Acme Corp'', description = ascii ''subscription'',
         issue_date = ascii ''05-03-2024''\<rparr> [ascii ''invoices'', ascii ''scan.pdf'']
      = ascii ''Acme_Corp_subscription_20240305.pdf''"
proof (intro conjI impI)
  show "generate_new_filename pad r p =
     sanitize_filename (company_name r) @ [95] @ sanitize_filename (description r) @ [95]
       @ parse_date_to_yyyymmdd pad (issue_date r) @ suffix p"
    by (simp add: generate_new_filename_def Let_def)
next
  assume "stem \<noteq> [] \<and> e \<noteq> [] \<and> 46 \<notin> set e"
  then have "suffix (dir @ [stem @ 46 # e]) = 46 # e" by (simp add: suffix_of_name)
  then show "generate_new_filename pad r (dir @ [stem @ 46 # e]) =
          sanitize_filename (company_name r) @ [95] @ sanitize_filename (description r) @ [95]
            @ parse_date_to_yyyymmdd pad (issue_date r) @ 46 # e"
    by (simp add: generate_new_filename_def Let_def)
next
  have 1: "sanitize_filename (ascii ''Acme Corp'') = ascii ''Acme_Corp''"
    by (simp add: sanitize_filename_def ascii_def strip_def invalid_char_def is_space_def)
  have 2: "sanitize_filename (ascii ''subscription'') = ascii ''subscription''"
    by (simp add: sanitize_filename_def ascii_def strip_def invalid_char_def is_space_def)
  have v: "valid_date 2024 3 5" by (simp add: date_eval)
  have "parse_date_to_yyyymmdd pad (two_digits 5 @ 45 # two_digits 3 @ 45 # four_digits 2024)
          = four_digits 2024 @ two_digits 3 @ two_digits 5"
    by (rule parse_date_reads_as [OF strict_reads_as [OF v], THEN trans])
       (rule strftime_Ymd_eight [OF v], simp)
  then have 3: "parse_date_to_yyyymmdd pad (ascii ''05-03-2024'') = ascii ''20240305''"
    by (simp add: two_digits_def four_digits_def ascii_def)
  have 4: "suffix [ascii ''invoices'', ascii ''scan.pdf''] = ascii ''.pdf''"
    by (simp add: suffix_def name_def ascii_def)
  show "generate_new_filename pad
        \<lparr>company_name = ascii ''Acme Corp'', description = ascii ''subscription'',
         issue_date = ascii ''05-03-2024''\<rparr> [ascii ''invoices'', ascii ''scan.pdf'']
      = ascii ''Acme_Corp_subscription_20240305.pdf''"
    by (simp add: generate_new_filename_def Let_def 1 2 3 4) (simp add: ascii_def)
qed

theorem generate_new_filename_composition_witness:
  "generate_new_filename True
     \<lparr>company_name = ascii ''A/B  Ltd.'', description = ascii ''course'',
      issue_date = ascii ''1-2-2023''\<rparr> [ascii ''in'', ascii ''x.y.PDF'']
   = ascii ''AB_Ltd_course_20230201.PDF''"
proof -
  have n: "ascii ''x.y'' \<noteq> [] \<and> ascii ''PDF'' \<noteq> [] \<and> 46 \<notin> set (ascii ''PDF'')"
    by (simp add: ascii_def)
  have p: "[ascii ''in'', ascii ''x.y.PDF''] = [ascii ''in''] @ [ascii ''x.y'' @ 46 # ascii ''PDF'']"
    by (simp add: ascii_def)
  have 1: "sanitize_filename (ascii ''A/B  Ltd.'') = ascii ''AB_Ltd''"
    by (simp add: sanitize_filename_def ascii_def strip_def invalid_char_def is_space_def)
  have 2: "sanitize_filename (ascii ''course'') = ascii ''course''"
    by (simp add: sanitize_filename_def ascii_def strip_def invalid_char_def is_space_def)
  have 3: "parse_date_to_yyyymmdd True (ascii ''1-2-2023'') = ascii ''20230201''"
    by (simp add: date_eval replicate_small)
  from generate_new_filename_composition [of True
      "\<lparr>company_name = ascii ''A/B  Ltd.'', description = ascii ''course'',
        issue_date = ascii ''1-2-2023''\<rparr>" "[]" "ascii ''x.y''" "ascii ''PDF''" "[ascii ''in'']"] n
  have "generate_new_filename True
     \<lparr>company_name = ascii ''A/B  Ltd.'', description = ascii ''course'',
      issue_date = ascii ''1-2-2023''\<rparr> ([ascii ''in''] @ [ascii ''x.y'' @ 46 # ascii ''PDF''])
    = sanitize_filename (ascii ''A/B  Ltd.'') @ [95] @ sanitize_filename (ascii ''course'') @ [95]
        @ parse_date_to_yyyymmdd True (ascii ''1-2-2023'') @ 46 # ascii ''PDF''"
    by simp
  then show ?thesis
    by (simp only: p [symmetric] 1 2 3) (simp add: ascii_def)
qed

section \<open>Properties of the batch\<close>

subsection \<open>What the steps log and change\<close>

lemma processed_simps [simp]:
  "processed [] = []"
  "processed (e # evs) = processing_of e @ processed evs"
  "processed (evs @ evs') = processed evs @ processed evs'"
  by (simp_all add: processed_def)

lemma renamed_simps [simp]:
  "renamed [] = []"
  "renamed (e # evs) = renaming_of e @ renamed evs"
  "renamed (evs @ evs') = renamed evs @ renamed evs'"
  by (simp_all add: renamed_def)

lemma no_interrupt_env: "no_interrupt w \<longleftrightarrow> no_interrupt (env_of w)"
  by (simp add: no_interrupt_def env_of_def)

lemma no_interrupt_same_env: "env_of w' = env_of w \<Longrightarrow> no_interrupt w' \<longleftrightarrow> no_interrupt w"
  using no_interrupt_env [of w] no_interrupt_env [of w'] by simp

lemma os_rename_env: "os_rename w src dst = Inr w' \<Longrightarrow> env_of w' = env_of w"
  by (auto simp: os_rename_def env_of_def split: option.splits if_splits)

lemma os_rename_interrupt:
  "no_interrupt w \<Longrightarrow> os_rename w src dst \<noteq> Inl KeyboardInterrupt"
  by (auto simp: os_rename_def no_interrupt_def split: option.splits if_splits)

lemma path_exists_interrupt:
  "no_interrupt w \<Longrightarrow> path_exists w p \<noteq> Inl KeyboardInterrupt"
  by (auto simp: path_exists_def stat_def no_interrupt_def split: option.splits sum.splits)

lemma extract_invoice_data_events:
  assumes "extract_invoice_data w f = (evs, r)"
  shows "processed evs = []" "renamed evs = []" "Info_interrupted \<notin> set evs"
    "no_interrupt w \<Longrightarrow> r \<noteq> Inl KeyboardInterrupt" "Info_script_interrupted \<notin> set evs"
  using assms
  by (auto simp: extract_invoice_data_def no_interrupt_def is_Exception_def
           split: sum.splits response.splits if_splits)

lemma date_warning_events [simp]:
  "processed (date_warning s) = []" "renamed (date_warning s) = []"
  "Info_interrupted \<notin> set (date_warning s)" "Info_script_interrupted \<notin> set (date_warning s)"
  by (simp_all add: date_warning_def)

lemma rename_file_events:
  assumes "rename_file w p n = (w', evs, r)"
  shows "processed evs = []" "renamed evs = (if r = Inr True then [p] else [])"
    "Info_interrupted \<notin> set evs" "env_of w' = env_of w"
    "no_interrupt w \<Longrightarrow> r \<noteq> Inl KeyboardInterrupt" "Info_script_interrupted \<notin> set evs"
  using assms os_rename_env [of w p "joinpath (parent p) n"]
    os_rename_interrupt [of w p "joinpath (parent p) n"]
    path_exists_interrupt [of w "joinpath (parent p) n"]
  by (auto simp: rename_file_def Let_def is_Exception_def split: sum.splits bool.splits if_splits)

lemma process_file_events_conj:
  assumes "process_file w f = (w', evs, r)"
  shows "processed evs = [f] \<and> renamed evs = (if r = Inr True then [f] else [])
      \<and> Info_interrupted \<notin> set evs \<and> env_of w' = env_of w
      \<and> (no_interrupt w \<longrightarrow> r \<noteq> Inl KeyboardInterrupt)
      \<and> Info_script_interrupted \<notin> set evs"
proof -
  obtain e1 r1 where x: "extract_invoice_data w f = (e1, r1)" by (cases "extract_invoice_data w f")
  note ex = extract_invoice_data_events [OF x]
  show ?thesis
  proof (cases r1)
    case (Inl e)
    with assms x ex show ?thesis by (auto simp: process_file_def)
  next
    case (Inr o1)
    show ?thesis
    proof (cases o1)
      case None
      with Inr assms x ex show ?thesis by (auto simp: process_file_def)
    next
      case (Some i)
      obtain w2 e2 r2 where rn: "rename_file w f (generate_new_filename (pad_year w) i f) = (w2, e2, r2)"
        by (metis prod_cases3)
      note re = rename_file_events [OF rn]
      from Some Inr assms x rn have "w' = w2" "r = r2"
        "evs = Info_processing f # e1 @ date_warning (issue_date i) @ e2"
        by (auto simp: process_file_def Let_def)
      with ex re show ?thesis by auto
    qed
  qed
qed

lemma process_file_events:
  assumes "process_file w f = (w', evs, r)"
  shows "processed evs = [f]" "renamed evs = (if r = Inr True then [f] else [])"
    "Info_interrupted \<notin> set evs" "env_of w' = env_of w"
    "no_interrupt w \<Longrightarrow> r \<noteq> Inl KeyboardInterrupt" "Info_script_interrupted \<notin> set evs"
  using process_file_events_conj [OF assms] by blast+

subsection \<open>The loop\<close>

lemma process_loop_facts:
  "process_loop w c files = (w', evs, n) \<Longrightarrow>
     n = c + length (renamed evs) \<and> subseq (renamed evs) files \<and> prefix (processed evs) files
     \<and> (Info_interrupted \<notin> set evs \<longrightarrow> processed evs = files)
     \<and> env_of w' = env_of w
     \<and> (no_interrupt w \<longrightarrow> Info_interrupted \<notin> set evs)
     \<and> (Info_interrupted \<in> set evs \<longrightarrow> n < c + length files)
     \<and> Info_script_interrupted \<notin> set evs"
proof (induction files arbitrary: w c w' evs n)
  case Nil
  then show ?case by simp
next
  case (Cons f rest)
  obtain w1 e1 r1 where pf: "process_file w f = (w1, e1, r1)" by (metis prod_cases3)
  note p = process_file_events [OF pf]
  have ni: "no_interrupt w \<Longrightarrow> no_interrupt w1"
    using no_interrupt_same_env [OF p(4)] by simp
  show ?case
  proof (cases r1)
    case (Inr ok)
    obtain w2 e2 n2 where pl: "process_loop w1 (if ok then c + 1 else c) rest = (w2, e2, n2)"
      by (metis prod_cases3)
    note ih = Cons.IH [OF pl]
    from Cons.prems pf Inr pl have eq: "w' = w2" "evs = e1 @ e2" "n = n2" by simp_all
    from p(2) Inr have r: "renamed e1 = (if ok then [f] else [])" by simp
    show ?thesis
      using ih p(1,3,4,5,6) ni r unfolding eq by (cases ok) auto
  next
    case (Inl e)
    show ?thesis
    proof (cases "e = KeyboardInterrupt")
      case True
      from Cons.prems pf Inl True have eq: "w' = w1" "evs = e1 @ [Info_interrupted]" "n = c"
        by simp_all
      from p(2) Inl have r: "renamed e1 = []" by simp
      show ?thesis
        using p(1,3,4,5,6) r Inl True unfolding eq by auto
    next
      case False
      obtain w2 e2 n2 where pl: "process_loop w1 c rest = (w2, e2, n2)"
        by (metis prod_cases3)
      note ih = Cons.IH [OF pl]
      from Cons.prems pf Inl False pl
      have eq: "w' = w2" "evs = e1 @ Error_unexpected f # e2" "n = n2" by simp_all
      from p(2) Inl have r: "renamed e1 = []" by simp
      show ?thesis
        using ih p(1,3,4,5,6) ni r unfolding eq by auto
    qed
  qed
qed

lemma process_loop_append:
  assumes "process_loop w c xs = (w1, e1, c1)" and "Info_interrupted \<notin> set e1"
    and "process_loop w1 c1 ys = (w2, e2, c2)"
  shows "process_loop w c (xs @ ys) = (w2, e1 @ e2, c2)"
  using assms
proof (induction xs arbitrary: w c e1)
  case Nil
  then show ?case by simp
next
  case (Cons f rest)
  obtain wa ea ra where pf: "process_file w f = (wa, ea, ra)" by (metis prod_cases3)
  show ?case
  proof (cases ra)
    case (Inr ok)
    obtain wb eb nb where pl: "process_loop wa (if ok then c + 1 else c) rest = (wb, eb, nb)"
      by (metis prod_cases3)
    from Cons.prems(1) pf Inr pl have eq: "w1 = wb" "e1 = ea @ eb" "c1 = nb" by simp_all
    from Cons.prems(2) eq have "Info_interrupted \<notin> set eb" by simp
    from Cons.IH [OF pl [folded eq(1,3)] this Cons.prems(3)]
    have "process_loop wa (if ok then c + 1 else c) (rest @ ys) = (w2, eb @ e2, c2)" .
    with pf Inr eq show ?thesis by simp
  next
    case (Inl e)
    show ?thesis
    proof (cases "e = KeyboardInterrupt")
      case True
      with Cons.prems(1) pf Inl have "e1 = ea @ [Info_interrupted]" by simp
      with Cons.prems(2) show ?thesis by simp
    next
      case False
      obtain wb eb nb where pl: "process_loop wa c rest = (wb, eb, nb)"
        by (metis prod_cases3)
      from Cons.prems(1) pf Inl False pl
      have eq: "w1 = wb" "e1 = ea @ Error_unexpected f # eb" "c1 = nb" by simp_all
      from Cons.prems(2) eq have "Info_interrupted \<notin> set eb" by simp
      from Cons.IH [OF pl [folded eq(1,3)] this Cons.prems(3)]
      have "process_loop wa c (rest @ ys) = (w2, eb @ e2, c2)" .
      with pf Inl False eq show ?thesis by simp
    qed
  qed
qed

subsection \<open>Validation and discovery\<close>

lemma validate_folder_events:
  "validate_folder w d = (evs, r) \<Longrightarrow> processed evs = [] \<and> renamed evs = []
     \<and> Info_interrupted \<notin> set evs \<and> Info_script_interrupted \<notin> set evs"
  by (auto simp: validate_folder_def split: sum.splits bool.splits)

lemma get_pdf_files_events:
  "get_pdf_files w d = (evs, r) \<Longrightarrow> processed evs = [] \<and> renamed evs = []
     \<and> Info_interrupted \<notin> set evs \<and> Info_script_interrupted \<notin> set evs"
  by (auto simp: get_pdf_files_def split: sum.splits if_splits)

lemma subseq_distinct: "subseq ys xs \<Longrightarrow> distinct xs \<Longrightarrow> distinct ys"
  using subseqs_distinctD [of ys xs] set_subseqs_eq [of xs] by blast

lemma keep_pdfs_subseq: "keep_pdfs w xs = Inr ys \<Longrightarrow> subseq ys xs"
proof (induction xs arbitrary: ys)
  case Nil
  then show ?case by simp
next
  case (Cons x xs)
  then show ?case by (auto split: sum.splits if_splits)
qed

lemma iterdir_distinct: "iterdir w d = Inr xs \<Longrightarrow> distinct xs"
  by (auto simp: iterdir_def split: option.splits node.splits)

lemma get_pdf_files_distinct: "get_pdf_files w d = (evs, Inr files) \<Longrightarrow> distinct files"
proof -
  assume a: "get_pdf_files w d = (evs, Inr files)"
  show ?thesis
  proof (cases "list_pdfs w d")
    case (Inl e)
    with a show ?thesis by (auto simp: get_pdf_files_def split: if_splits)
  next
    case (Inr ys)
    with a have f: "files = ys" by (simp add: get_pdf_files_def)
    from Inr obtain xs where "iterdir w d = Inr xs" "keep_pdfs w xs = Inr ys"
      by (auto simp: list_pdfs_def split: sum.splits)
    then have "distinct xs" "subseq ys xs"
      using iterdir_distinct keep_pdfs_subseq by blast+
    then show ?thesis using f subseq_distinct by blast
  qed
qed


subsection \<open>The exit status\<close>

lemma main_code:
  "snd (snd (main w (Namespace folder verbose))) =
     (if client_error w = None \<and>
         (\<exists>w' evs n. process_all_files w (parts_of folder) = (w', evs, Inr (n, n)) \<and> n \<noteq> 0)
      then 0 else 1)"
proof (cases "client_error w")
  case (Some e)
  then show ?thesis by (simp add: main_def)
next
  case None
  obtain w' evs r where p: "process_all_files w (parts_of folder) = (w', evs, r)"
    by (metis prod_cases3)
  show ?thesis
  proof (cases r)
    case (Inl e)
    with None p show ?thesis by (simp add: main_def)
  next
    case (Inr st)
    obtain a b where "st = (a, b)" by (cases st)
    with Inr None p show ?thesis by (auto simp: main_def)
  qed
qed

lemma main_renamed:
  "client_error w = None \<Longrightarrow>
     renamed (fst (snd (main w (Namespace folder verbose))))
       = renamed (fst (snd (process_all_files w (parts_of folder))))"
proof -
  assume c: "client_error w = None"
  obtain w' evs r where p: "process_all_files w (parts_of folder) = (w', evs, r)"
    by (metis prod_cases3)
  show ?thesis
  proof (cases r)
    case (Inl e)
    with c p show ?thesis by (simp add: main_def)
  next
    case (Inr st)
    obtain a b where "st = (a, b)" by (cases st)
    with Inr c p show ?thesis by (simp add: main_def)
  qed
qed

lemma all_renamed_iff:
  assumes "subseq rs files" and "distinct files"
  shows "length rs = length files \<longleftrightarrow> set files \<subseteq> set rs"
proof
  assume "length rs = length files"
  with assms(1) have "rs = files" by (rule subseq_same_length)
  then show "set files \<subseteq> set rs" by simp
next
  assume s: "set files \<subseteq> set rs"
  have "set rs \<subseteq> set files"
  proof
    fix x
    assume "x \<in> set rs"
    with assms(1) obtain y where "y \<in> set files" "x = y" by (rule list_emb_set)
    then show "x \<in> set files" by simp
  qed
  with s have e: "set rs = set files" by simp
  have d: "distinct rs" using assms by (rule subseq_distinct)
  have "length rs = card (set rs)" using d by (simp add: distinct_card)
  also have "\<dots> = card (set files)" by (simp only: e)
  also have "\<dots> = length files" using assms(2) by (simp add: distinct_card)
  finally show "length rs = length files" .
qed

lemma process_all_files_success_iff:
  "(\<exists>w' evs n. process_all_files w d = (w', evs, Inr (n, n)) \<and> n \<noteq> 0) \<longleftrightarrow>
   (\<exists>ev0 ev1 files. validate_folder w d = (ev0, Inr True) \<and>
       get_pdf_files w d = (ev1, Inr files) \<and> files \<noteq> [] \<and>
       set files \<subseteq> set (renamed (fst (snd (process_all_files w d)))))"
proof -
  obtain ev0 r0 where v: "validate_folder w d = (ev0, r0)" by (cases "validate_folder w d")
  show ?thesis
  proof (cases "r0 = Inr True")
    case False
    with v show ?thesis
      by (cases r0) (auto simp: process_all_files_def split: bool.splits)
  next
    case True
    obtain ev1 r1 where g: "get_pdf_files w d = (ev1, r1)" by (cases "get_pdf_files w d")
    show ?thesis
    proof (cases r1)
      case (Inl e)
      with True v g show ?thesis by (simp add: process_all_files_def)
    next
      case (Inr files)
      show ?thesis
      proof (cases "files = []")
        case True
        with \<open>r0 = Inr True\<close> Inr v g show ?thesis by (simp add: process_all_files_def)
      next
        case False
        obtain w' e2 n where pl: "process_loop w 0 files = (w', e2, n)" by (metis prod_cases3)
        note f = process_loop_facts [OF pl]
        from False \<open>r0 = Inr True\<close> Inr v g pl
        have p: "process_all_files w d = (w', ev0 @ ev1 @ e2, Inr (n, length files))"
          by (simp add: process_all_files_def)
        have r: "renamed (ev0 @ ev1 @ e2) = renamed e2"
          using validate_folder_events [OF v] get_pdf_files_events [OF g] by simp
        have "distinct files" using g Inr get_pdf_files_distinct by blast
        with f have "length (renamed e2) = length files \<longleftrightarrow> set files \<subseteq> set (renamed e2)"
          by (intro all_renamed_iff) simp_all
        moreover have "n = length (renamed e2)" using f by simp
        ultimately show ?thesis
          using False \<open>r0 = Inr True\<close> Inr v g p r by auto
      qed
    qed
  qed
qed

lemma process_all_files_interrupted:
  assumes "process_all_files w d = (w', evs, Inr (n, m))"
  shows "Info_script_interrupted \<notin> set evs" "Info_interrupted \<in> set evs \<Longrightarrow> n < m"
proof -
  obtain ev0 r0 where v: "validate_folder w d = (ev0, r0)" by (cases "validate_folder w d")
  note ve = validate_folder_events [OF v]
  have "Info_script_interrupted \<notin> set evs \<and> (Info_interrupted \<in> set evs \<longrightarrow> n < m)"
  proof (cases "r0 = Inr True")
    case False
    with v assms ve show ?thesis
      by (cases r0) (auto simp: process_all_files_def split: bool.splits)
  next
    case True
    obtain ev1 r1 where g: "get_pdf_files w d = (ev1, r1)" by (cases "get_pdf_files w d")
    note ge = get_pdf_files_events [OF g]
    show ?thesis
    proof (cases r1)
      case (Inl e)
      with True v g assms show ?thesis by (simp add: process_all_files_def)
    next
      case (Inr files)
      show ?thesis
      proof (cases "files = []")
        case True
        with \<open>r0 = Inr True\<close> Inr v g assms ve ge show ?thesis
          by (auto simp: process_all_files_def)
      next
        case False
        obtain w2 e2 n2 where pl: "process_loop w 0 files = (w2, e2, n2)" by (metis prod_cases3)
        note f = process_loop_facts [OF pl]
        from False \<open>r0 = Inr True\<close> Inr v g pl assms
        have "evs = ev0 @ ev1 @ e2" "n = n2" "m = length files"
          by (simp_all add: process_all_files_def)
        with f ve ge show ?thesis by auto
      qed
    qed
  qed
  then show "Info_script_interrupted \<notin> set evs" "Info_interrupted \<in> set evs \<Longrightarrow> n < m"
    by blast+
qed

lemma main_interrupted:
  assumes "Info_interrupted \<in> set (fst (snd (main w (Namespace folder verbose)))) \<or>
           Info_script_interrupted \<in> set (fst (snd (main w (Namespace folder verbose))))"
  shows "snd (snd (main w (Namespace folder verbose))) = 1"
proof (rule ccontr)
  assume "snd (snd (main w (Namespace folder verbose))) \<noteq> 1"
  then have c: "client_error w = None"
    and "\<exists>w' evs n. process_all_files w (parts_of folder) = (w', evs, Inr (n, n)) \<and> n \<noteq> 0"
    using main_code [of w folder] by (auto split: if_splits)
  then obtain w' evs n where p: "process_all_files w (parts_of folder) = (w', evs, Inr (n, n))"
    and n: "n \<noteq> 0" by blast
  from c p n have "fst (snd (main w (Namespace folder verbose))) = evs @ [Info_completed n n, Success_all]"
    by (simp add: main_def)
  with assms process_all_files_interrupted [OF p] show False by auto
qed


subsection \<open>The example runs\<close>

lemmas example_defs =
  folder0_def file_a_def file_b_def file_c_def world0_def world_one_def world_empty_def
  world_denied_def world_interrupt_def fs_renamed_def name0_def ascii_def

lemmas call_defs =
  stat_def path_exists_def is_dir_def is_file_def iterdir_def validate_folder_def
  list_pdfs_def get_pdf_files_def suffix_is_pdf_def suffix_def name_def lower_ascii_def
  parts_of_def joinpath_def parent_def

lemma parts_of_inv: "parts_of (ascii ''inv'') = folder0"
  by (simp add: parts_of_def folder0_def ascii_def)

lemma validate_folder_examples:
  "validate_folder world0 folder0 = ([], Inr True)"
  "validate_folder world_one folder0 = ([], Inr True)"
  "validate_folder world_empty folder0 = ([], Inr True)"
  "validate_folder world_denied folder0 = ([], Inr True)"
  "validate_folder world_interrupt folder0 = ([], Inr True)"
  by (simp_all add: call_defs example_defs)


lemma get_pdf_files_world_one:
  "get_pdf_files world_one folder0 = ([Info_found 1 folder0], Inr [file_a])"
  by (simp add: call_defs example_defs)

lemma get_pdf_files_world_interrupt:
  "get_pdf_files world_interrupt folder0
     = ([Info_found 3 folder0], Inr [file_a, file_b, file_c])"
  by (simp add: call_defs example_defs)

lemma list_pdfs_examples:
  "list_pdfs world_denied folder0 = Inl PermissionError"
  "list_pdfs world_empty folder0 = Inr []"
  by (simp_all add: call_defs example_defs)


lemma name_of_invoice0: "generate_new_filename False invoice0 file_a = name0"
proof -
  have 1: "sanitize_filename (ascii ''Acme Corp'') = ascii ''Acme_Corp''"
    by (simp add: sanitize_filename_def ascii_def strip_def invalid_char_def is_space_def)
  have 2: "sanitize_filename (ascii ''subscription'') = ascii ''subscription''"
    by (simp add: sanitize_filename_def ascii_def strip_def invalid_char_def is_space_def)
  have 3: "parse_date_to_yyyymmdd False (ascii ''05-03-2024'') = ascii ''20240305''"
    by (simp add: date_eval replicate_small)
  have 4: "suffix file_a = ascii ''.pdf''"
    by (simp add: suffix_def name_def file_a_def ascii_def)
  show ?thesis
    by (simp add: generate_new_filename_def invoice0_def Let_def 1 2 3 4)
       (simp add: name0_def ascii_def)
qed

lemma date_warning_invoice0: "date_warning (issue_date invoice0) = []"
proof -
  have "strptime_dmY (ascii ''05-03-2024'') = Some (2024, 3, 5)"
    by (simp add: date_eval)
  then show ?thesis by (simp add: date_warning_def invoice0_def)
qed

lemma new_path_of_file_a: "joinpath (parent file_a) name0 = [ascii ''inv'', name0]"
  by (simp add: joinpath_def parent_def parts_of_def file_a_def name0_def ascii_def)

lemma process_file_a_world_one:
  "process_file world_one file_a
     = (world_one\<lparr>fs := [(folder0, Dir), ([ascii ''inv'', name0], File [1])]\<rparr>,
        [Info_processing file_a, Debug_response file_a, Info_renamed file_a name0], Inr True)"
proof -
  have g: "gemini world_one file_a = Inr (Json invoice0)"
    by (simp add: example_defs)
  have p: "pad_year world_one = False"
    by (simp add: example_defs)
  have e: "path_exists world_one [ascii ''inv'', name0] = Inr False"
    by (simp add: path_exists_def stat_def example_defs)
  have r: "os_rename world_one file_a [ascii ''inv'', name0]
             = Inr (world_one\<lparr>fs := [(folder0, Dir), ([ascii ''inv'', name0], File [1])]\<rparr>)"
    by (simp add: os_rename_def example_defs)
  show ?thesis
    by (simp add: process_file_def extract_invoice_data_def rename_file_def Let_def g p
          name_of_invoice0 date_warning_invoice0 new_path_of_file_a e r)
qed

lemma process_file_a_world_interrupt:
  "process_file world_interrupt file_a
     = (world_interrupt\<lparr>fs := fs_renamed\<rparr>,
        [Info_processing file_a, Debug_response file_a, Info_renamed file_a name0], Inr True)"
proof -
  have g: "gemini world_interrupt file_a = Inr (Json invoice0)"
    by (simp add: example_defs)
  have p: "pad_year world_interrupt = False"
    by (simp add: example_defs)
  have e: "path_exists world_interrupt [ascii ''inv'', name0] = Inr False"
    by (simp add: path_exists_def stat_def example_defs)
  have r: "os_rename world_interrupt file_a [ascii ''inv'', name0]
             = Inr (world_interrupt\<lparr>fs := fs_renamed\<rparr>)"
    by (simp add: os_rename_def example_defs)
  show ?thesis
    by (simp add: process_file_def extract_invoice_data_def rename_file_def Let_def g p
          name_of_invoice0 date_warning_invoice0 new_path_of_file_a e r)
qed

lemma process_file_b_world_interrupt:
  "process_file (world_interrupt\<lparr>fs := fs_renamed\<rparr>) file_b
     = (world_interrupt\<lparr>fs := fs_renamed\<rparr>, [Info_processing file_b], Inl KeyboardInterrupt)"
proof -
  have g: "gemini world_interrupt file_b = Inl KeyboardInterrupt"
    by (simp add: world_interrupt_def world0_def)
  show ?thesis
    by (simp add: process_file_def extract_invoice_data_def g is_Exception_def)
qed

lemma main_world_one:
  "main world_one (Namespace (ascii ''inv'') False)
     = (world_one\<lparr>fs := [(folder0, Dir), ([ascii ''inv'', name0], File [1])]\<rparr>,
        [Info_found 1 folder0, Info_processing file_a, Debug_response file_a,
         Info_renamed file_a name0, Info_completed 1 1, Success_all], 0)"
proof -
  have c: "client_error world_one = None"
    by (simp add: example_defs)
  have "process_all_files world_one folder0
     = (world_one\<lparr>fs := [(folder0, Dir), ([ascii ''inv'', name0], File [1])]\<rparr>,
        [Info_found 1 folder0, Info_processing file_a, Debug_response file_a,
         Info_renamed file_a name0], Inr (1, 1))"
    by (simp add: process_all_files_def validate_folder_examples get_pdf_files_world_one
          process_file_a_world_one)
  then show ?thesis
    by (simp add: main_def c parts_of_inv)
qed

lemma main_world_interrupt:
  "main world_interrupt (Namespace (ascii ''inv'') False)
     = (world_interrupt\<lparr>fs := fs_renamed\<rparr>,
        [Info_found 3 folder0, Info_processing file_a, Debug_response file_a,
         Info_renamed file_a name0, Info_processing file_b, Info_interrupted,
         Info_completed 1 3, Warning_some_failed 2], 1)"
proof -
  have c: "client_error world_interrupt = None"
    by (simp add: example_defs)
  have "process_all_files world_interrupt folder0
     = (world_interrupt\<lparr>fs := fs_renamed\<rparr>,
        [Info_found 3 folder0, Info_processing file_a, Debug_response file_a,
         Info_renamed file_a name0, Info_processing file_b, Info_interrupted], Inr (1, 3))"
    by (simp add: process_all_files_def validate_folder_examples get_pdf_files_world_interrupt
          process_file_a_world_interrupt process_file_b_world_interrupt)
  then show ?thesis
    by (simp add: main_def c parts_of_inv)
qed

lemma client_examples:
  "client_error world_denied = None" "client_error world_empty = None"
  by (simp_all add: example_defs)

section \<open>The claims about the batch\<close>







text \<open>
  C9. If the user interrupts while the file \<open>f\<close> is processed, after the files before it
  were processed without interruption, the batch ends there: the files after \<open>f\<close> are not
  processed, and the result is returned, with the count of the successes up to then and
  the number of discovered files as the total.
\<close>

theorem cancellation_stops_batch:
  assumes "validate_folder w d = (ev0, Inr True)"
    and "get_pdf_files w d = (ev1, Inr (pre @ f # post))"
    and "process_loop w 0 pre = (w1, e1, c)" and "Info_interrupted \<notin> set e1"
    and "process_file w1 f = (w2, e2, Inl KeyboardInterrupt)"
  shows "\<exists>evs. process_all_files w d = (w2, evs, Inr (c, length (pre @ f # post)))
           \<and> processed evs = pre @ [f] \<and> c = length (renamed evs)
           \<and> renamed evs = renamed e1"
proof -
  have "process_loop w1 c (f # post) = (w2, e2 @ [Info_interrupted], c)"
    using assms(5) by simp
  from process_loop_append [OF assms(3,4) this]
  have pl: "process_loop w 0 (pre @ f # post) = (w2, e1 @ e2 @ [Info_interrupted], c)" .
  then have 1: "process_all_files w d
      = (w2, ev0 @ ev1 @ e1 @ e2 @ [Info_interrupted], Inr (c, length (pre @ f # post)))"
    using assms(1,2) by (simp add: process_all_files_def)
  note a = process_loop_facts [OF assms(3)]
  note b = process_file_events [OF assms(5)]
  have 2: "processed (ev0 @ ev1 @ e1 @ e2 @ [Info_interrupted]) = pre @ [f]"
    using a b assms(4) validate_folder_events [OF assms(1)] get_pdf_files_events [OF assms(2)]
    by simp
  have 3: "renamed (ev0 @ ev1 @ e1 @ e2 @ [Info_interrupted]) = renamed e1"
    using b validate_folder_events [OF assms(1)] get_pdf_files_events [OF assms(2)]
    by simp
  from a have "c = length (renamed e1)" by simp
  with 1 2 3 show ?thesis by simp
qed

theorem cancellation_stops_batch_witness:
  "validate_folder world_interrupt folder0 = ([], Inr True)
   \<and> get_pdf_files world_interrupt folder0
       = ([Info_found 3 folder0], Inr ([file_a] @ file_b # [file_c]))
   \<and> process_loop world_interrupt 0 [file_a]
       = (world_interrupt\<lparr>fs := fs_renamed\<rparr>,
          [Info_processing file_a, Debug_response file_a, Info_renamed file_a name0], 1)
   \<and> Info_interrupted
       \<notin> set [Info_processing file_a, Debug_response file_a, Info_renamed file_a name0]
   \<and> process_file (world_interrupt\<lparr>fs := fs_renamed\<rparr>) file_b
       = (world_interrupt\<lparr>fs := fs_renamed\<rparr>, [Info_processing file_b], Inl KeyboardInterrupt)
   \<and> (\<exists>evs. process_all_files world_interrupt folder0
                = (world_interrupt\<lparr>fs := fs_renamed\<rparr>, evs, Inr (1, 3))
         \<and> processed evs = [file_a, file_b] \<and> renamed evs = [file_a])"
proof -
  have h1: "validate_folder world_interrupt folder0 = ([], Inr True)"
    by (rule validate_folder_examples(5))
  have h2: "get_pdf_files world_interrupt folder0
       = ([Info_found 3 folder0], Inr ([file_a] @ file_b # [file_c]))"
    by (simp add: get_pdf_files_world_interrupt)
  have h3: "process_loop world_interrupt 0 [file_a]
       = (world_interrupt\<lparr>fs := fs_renamed\<rparr>,
          [Info_processing file_a, Debug_response file_a, Info_renamed file_a name0], 1)"
    by (simp add: process_file_a_world_interrupt)
  have h4: "Info_interrupted
       \<notin> set [Info_processing file_a, Debug_response file_a, Info_renamed file_a name0]"
    by simp
  note h5 = process_file_b_world_interrupt
  from cancellation_stops_batch [OF h1 h2 h3 h4 h5]
  have "\<exists>evs. process_all_files world_interrupt folder0
                = (world_interrupt\<lparr>fs := fs_renamed\<rparr>, evs, Inr (1, 3))
         \<and> processed evs = [file_a, file_b] \<and> renamed evs = [file_a]"
    by (auto simp: numeral_3_eq_3)
  with h1 h2 h3 h4 h5 show ?thesis by (intro conjI)
qed

text \<open>
  C2, amended. When the command line is accepted, the exit status is 0 exactly when the
  client was built, the folder is valid, at least one file was discovered and every
  discovered file was renamed; in every other case it is 1, and so it is whenever the
  user's interrupt was caught in the loop or in \<open>main\<close>. When the command line asks for
  the help the status is 0, and when it is rejected the status is 2; in both cases
  nothing is logged and the world is unchanged: no file was discovered.
\<close>

theorem main_exit_code:
  "(snd (snd (main w (Namespace folder verbose))) = 0 \<longleftrightarrow>
      client_error w = None \<and>
      (\<exists>ev0 ev1 files. validate_folder w (parts_of folder) = (ev0, Inr True) \<and>
          get_pdf_files w (parts_of folder) = (ev1, Inr files) \<and> files \<noteq> [] \<and>
          set files \<subseteq> set (renamed (fst (snd (main w (Namespace folder verbose)))))))
   \<and> (snd (snd (main w (Namespace folder verbose))) = 0 \<or>
      snd (snd (main w (Namespace folder verbose))) = 1)
   \<and> (Info_interrupted \<in> set (fst (snd (main w (Namespace folder verbose)))) \<or>
      Info_script_interrupted \<in> set (fst (snd (main w (Namespace folder verbose))))
        \<longrightarrow> snd (snd (main w (Namespace folder verbose))) = 1)
   \<and> main w Help = (w, [], 0)
   \<and> main w Usage_error = (w, [], 2)"
proof (intro conjI)
  have "snd (snd (main w (Namespace folder verbose))) = 0 \<longleftrightarrow>
      client_error w = None \<and>
      (\<exists>w' evs n. process_all_files w (parts_of folder) = (w', evs, Inr (n, n)) \<and> n \<noteq> 0)"
    using main_code [of w folder verbose] by (auto split: if_splits)
  also have "\<dots> \<longleftrightarrow> client_error w = None \<and>
      (\<exists>ev0 ev1 files. validate_folder w (parts_of folder) = (ev0, Inr True) \<and>
          get_pdf_files w (parts_of folder) = (ev1, Inr files) \<and> files \<noteq> [] \<and>
          set files \<subseteq> set (renamed (fst (snd (process_all_files w (parts_of folder))))))"
    by (simp only: process_all_files_success_iff [of w "parts_of folder"])
  also have "\<dots> \<longleftrightarrow> client_error w = None \<and>
      (\<exists>ev0 ev1 files. validate_folder w (parts_of folder) = (ev0, Inr True) \<and>
          get_pdf_files w (parts_of folder) = (ev1, Inr files) \<and> files \<noteq> [] \<and>
          set files \<subseteq> set (renamed (fst (snd (main w (Namespace folder verbose))))))"
    using main_renamed [of w folder verbose] by (cases "client_error w") (simp_all only:, simp)
  finally show "snd (snd (main w (Namespace folder verbose))) = 0 \<longleftrightarrow>
      client_error w = None \<and>
      (\<exists>ev0 ev1 files. validate_folder w (parts_of folder) = (ev0, Inr True) \<and>
          get_pdf_files w (parts_of folder) = (ev1, Inr files) \<and> files \<noteq> [] \<and>
          set files \<subseteq> set (renamed (fst (snd (main w (Namespace folder verbose))))))" .
  show "snd (snd (main w (Namespace folder verbose))) = 0 \<or>
      snd (snd (main w (Namespace folder verbose))) = 1"
    by (simp add: main_code)
  show "Info_interrupted \<in> set (fst (snd (main w (Namespace folder verbose)))) \<or>
      Info_script_interrupted \<in> set (fst (snd (main w (Namespace folder verbose))))
        \<longrightarrow> snd (snd (main w (Namespace folder verbose))) = 1"
    using main_interrupted by blast
  show "main w Help = (w, [], 0)" by (simp add: main_def)
  show "main w Usage_error = (w, [], 2)" by (simp add: main_def)
qed

theorem main_exit_code_witness:
  "snd (snd (main world_one (Namespace (ascii ''inv'') False))) = 0
   \<and> client_error world_one = None
   \<and> (\<exists>ev0 ev1 files.
         validate_folder world_one (parts_of (ascii ''inv'')) = (ev0, Inr True) \<and>
         get_pdf_files world_one (parts_of (ascii ''inv'')) = (ev1, Inr files) \<and> files \<noteq> [] \<and>
         set files \<subseteq> set (renamed (fst (snd (main world_one (Namespace (ascii ''inv'') False))))))
   \<and> Info_interrupted \<in> set (fst (snd (main world_interrupt (Namespace (ascii ''inv'') False))))
   \<and> snd (snd (main world_interrupt (Namespace (ascii ''inv'') False))) = 1"
proof -
  have a: "snd (snd (main world_one (Namespace (ascii ''inv'') False))) = 0"
    by (simp add: main_world_one)
  have b: "Info_interrupted \<in> set (fst (snd (main world_interrupt (Namespace (ascii ''inv'') False))))"
    by (simp add: main_world_interrupt)
  from main_exit_code [of world_one "ascii ''inv''" False] a
  have 1: "client_error world_one = None \<and>
      (\<exists>ev0 ev1 files.
         validate_folder world_one (parts_of (ascii ''inv'')) = (ev0, Inr True) \<and>
         get_pdf_files world_one (parts_of (ascii ''inv'')) = (ev1, Inr files) \<and> files \<noteq> [] \<and>
         set files \<subseteq> set (renamed (fst (snd (main world_one (Namespace (ascii ''inv'') False))))))"
    by blast
  from main_exit_code [of world_interrupt "ascii ''inv''" False] b
  have 2: "snd (snd (main world_interrupt (Namespace (ascii ''inv'') False))) = 1"
    by blast
  from a 1 b 2 show ?thesis by blast
qed

text \<open>
  C2 as stated fails where the command line is not accepted. Asked for the help, the
  program ends with status 0, yet no file was discovered or renamed: nothing was logged
  and the world is unchanged. With a command line that the parser rejects, no file was
  found or processed, yet the status is 2, not 1.
\<close>

theorem main_help_counterexample:
  "snd (snd (main world0 Help)) = 0
   \<and> fst (snd (main world0 Help)) = []
   \<and> fst (main world0 Help) = world0
   \<and> snd (snd (main world0 Usage_error)) = 2
   \<and> fst (snd (main world0 Usage_error)) = []
   \<and> fst (main world0 Usage_error) = world0"
  by (simp add: main_def)

text \<open>
  C10. If listing the valid folder fails with a permission error, \<open>get_pdf_files\<close>
  returns the empty list, \<open>process_all_files\<close> returns \<open>(0, 0)\<close> and the program ends
  with status 1, the world unchanged. A run on a valid folder in which no PDF file is
  found returns the same \<open>(0, 0)\<close> and ends with the same status 1; the two runs differ
  in one line of the log only, the error of the permission in place of the count of
  found files.
\<close>

theorem permission_error_as_empty_folder:
  assumes "client_error w = None" and "validate_folder w (parts_of folder) = ([], Inr True)"
    and "list_pdfs w (parts_of folder) = Inl PermissionError"
    and "client_error w2 = None" and "validate_folder w2 (parts_of folder2) = ([], Inr True)"
    and "list_pdfs w2 (parts_of folder2) = Inr []"
  shows "get_pdf_files w (parts_of folder)
           = ([Error_permission_denied (parts_of folder)], Inr [])
     \<and> process_all_files w (parts_of folder)
           = (w, [Error_permission_denied (parts_of folder), Warning_no_pdf], Inr (0, 0))
     \<and> main w (Namespace folder verbose)
           = (w, [Error_permission_denied (parts_of folder), Warning_no_pdf,
                  Error_no_files_processed], 1)
     \<and> process_all_files w2 (parts_of folder2)
           = (w2, [Info_found 0 (parts_of folder2), Warning_no_pdf], Inr (0, 0))
     \<and> main w2 (Namespace folder2 verbose2)
           = (w2, [Info_found 0 (parts_of folder2), Warning_no_pdf,
                   Error_no_files_processed], 1)"
proof -
  have g: "get_pdf_files w (parts_of folder)
             = ([Error_permission_denied (parts_of folder)], Inr [])"
    using assms(3) by (simp add: get_pdf_files_def)
  have g2: "get_pdf_files w2 (parts_of folder2) = ([Info_found 0 (parts_of folder2)], Inr [])"
    using assms(6) by (simp add: get_pdf_files_def)
  have p: "process_all_files w (parts_of folder)
             = (w, [Error_permission_denied (parts_of folder), Warning_no_pdf], Inr (0, 0))"
    using assms(2) g by (simp add: process_all_files_def)
  have p2: "process_all_files w2 (parts_of folder2)
             = (w2, [Info_found 0 (parts_of folder2), Warning_no_pdf], Inr (0, 0))"
    using assms(5) g2 by (simp add: process_all_files_def)
  have m: "main w (Namespace folder verbose)
             = (w, [Error_permission_denied (parts_of folder), Warning_no_pdf,
                    Error_no_files_processed], 1)"
    using assms(1) p by (simp add: main_def)
  have m2: "main w2 (Namespace folder2 verbose2)
             = (w2, [Info_found 0 (parts_of folder2), Warning_no_pdf,
                     Error_no_files_processed], 1)"
    using assms(4) p2 by (simp add: main_def)
  from g p m p2 m2 show ?thesis by (intro conjI)
qed

theorem permission_error_as_empty_folder_witness:
  "client_error world_denied = None
   \<and> validate_folder world_denied (parts_of (ascii ''inv'')) = ([], Inr True)
   \<and> list_pdfs world_denied (parts_of (ascii ''inv'')) = Inl PermissionError
   \<and> client_error world_empty = None
   \<and> validate_folder world_empty (parts_of (ascii ''inv'')) = ([], Inr True)
   \<and> list_pdfs world_empty (parts_of (ascii ''inv'')) = Inr []
   \<and> process_all_files world_denied folder0
       = (world_denied, [Error_permission_denied folder0, Warning_no_pdf], Inr (0, 0))
   \<and> main world_denied (Namespace (ascii ''inv'') False)
       = (world_denied, [Error_permission_denied folder0, Warning_no_pdf,
                         Error_no_files_processed], 1)
   \<and> process_all_files world_empty folder0
       = (world_empty, [Info_found 0 folder0, Warning_no_pdf], Inr (0, 0))
   \<and> main world_empty (Namespace (ascii ''inv'') False)
       = (world_empty, [Info_found 0 folder0, Warning_no_pdf, Error_no_files_processed], 1)"
proof -
  note h1 = client_examples(1)
  have h2: "validate_folder world_denied (parts_of (ascii ''inv'')) = ([], Inr True)"
    by (simp add: parts_of_inv validate_folder_examples)
  have h3: "list_pdfs world_denied (parts_of (ascii ''inv'')) = Inl PermissionError"
    by (simp add: parts_of_inv list_pdfs_examples)
  note h4 = client_examples(2)
  have h5: "validate_folder world_empty (parts_of (ascii ''inv'')) = ([], Inr True)"
    by (simp add: parts_of_inv validate_folder_examples)
  have h6: "list_pdfs world_empty (parts_of (ascii ''inv'')) = Inr []"
    by (simp add: parts_of_inv list_pdfs_examples)
  note t = permission_error_as_empty_folder [OF h1 h2 h3 h4 h5 h6, of False False,
      unfolded parts_of_inv]
  from t have 1: "process_all_files world_denied folder0
       = (world_denied, [Error_permission_denied folder0, Warning_no_pdf], Inr (0, 0))"
    by blast
  from t have 2: "main world_denied (Namespace (ascii ''inv'') False)
       = (world_denied, [Error_permission_denied folder0, Warning_no_pdf,
                         Error_no_files_processed], 1)"
    by blast
  from t have 3: "process_all_files world_empty folder0
       = (world_empty, [Info_found 0 folder0, Warning_no_pdf], Inr (0, 0))"
    by blast
  from t have 4: "main world_empty (Namespace (ascii ''inv'') False)
       = (world_empty, [Info_found 0 folder0, Warning_no_pdf, Error_no_files_processed], 1)"
    by blast
  from h1 h2 h3 h4 h5 h6 1 2 3 4 show ?thesis by (intro conjI)
qed

end
